theory Spec2Isabelle
  imports Complex_Main
begin

section \<open>Numbers, exceptions and outcomes\<close>

text \<open>
  The file \<^verbatim>\<open>ProjectionEvaluator.cpp\<close> computes with C++ \<^verbatim>\<open>double\<close>s. A finite
  double is a real number, and the arithmetic on doubles is modelled by the arithmetic
  on real numbers, with two exceptions. Where an integer is computed from a quotient
  (\<open>computeCoordinates\<close>), the quotient is rounded as the double division rounds it.
  Where a division by zero makes a NaN (the normalisation of a row of zeros in
  \<open>ComputeRandom\<close>), the NaN is a value of the model. An operation has the outcome
  \<open>Undefined\<close> where the C++ has no defined result: an element access beyond the end of
  a vector, and the conversion \<^verbatim>\<open>(int)\<close> of a value that is no \<^verbatim>\<open>int\<close>.
\<close>

type_synonym double = real

definition epsilon :: double where
  \<comment> \<open>\<^verbatim>\<open>std::numeric_limits<double>::epsilon()\<close>\<close>
  "epsilon = 1 / 2 ^ 52"

definition INT_MIN :: int where
  "INT_MIN = - (2 ^ 31)"

definition INT_MAX :: int where
  "INT_MAX = 2 ^ 31 - 1"

text \<open>
  Every failure of the file is \<^verbatim>\<open>throw Exception(message)\<close>; the three messages are
  the three kinds of configuration error.
\<close>

datatype exception = Exception string

definition InvalidDimension :: exception where
  "InvalidDimension = Exception ''Dimension of projection needs to be larger than 0''"

definition CellDimensionMismatch :: exception where
  "CellDimensionMismatch =
     Exception ''Number of dimensions in projection space does not match number of cell dimensions''"

definition DegenerateScale :: exception where
  "DegenerateScale = Exception ''Scaling factor must be non-zero''"

datatype 'a outcome = Returns 'a | Throws exception | Undefined

section \<open>ProjectionEvaluator\<close>

text \<open>
  The evaluator: \<open>getDimension\<close> and \<open>project\<close> are the two virtual methods of the
  projection strategy (\<open>project\<close> fills the \<open>values\<close> of a Euclidean projection),
  \<open>cellDimensions\<close> is the member vector \<^verbatim>\<open>cellDimensions_\<close>. The manifold's sampler is an external source
  of states: \<open>samples\<close> is the sequence of states it hands out and \<open>drawn\<close> counts the
  calls of \<^verbatim>\<open>sampleUniform\<close> made so far. \<open>warnings\<close> is the console: one entry for each
  call of \<^verbatim>\<open>msg.warn\<close>, holding the axis the message is about.
\<close>

record 's ProjectionEvaluator =
  getDimension :: nat
  project :: "'s \<Rightarrow> double list"
  cellDimensions :: "double list"
  samples :: "nat \<Rightarrow> 's"
  drawn :: nat
  warnings :: "nat list"

definition checkCellDimensions :: "'s ProjectionEvaluator \<Rightarrow> unit outcome" where
  "checkCellDimensions ev =
     (if getDimension ev \<le> 0 then Throws InvalidDimension
      else if length (cellDimensions ev) \<noteq> getDimension ev then Throws CellDimensionMismatch
      else Returns ())"

text \<open>
  A method that changes the evaluator returns its outcome and the evaluator it leaves
  behind: what was assigned before a \<^verbatim>\<open>throw\<close> stays assigned.
\<close>

definition setCellDimensions ::
  "double list \<Rightarrow> 's ProjectionEvaluator \<Rightarrow> unit outcome \<times> 's ProjectionEvaluator" where
  "setCellDimensions dims ev =
     (let ev' = ev\<lparr>cellDimensions := dims\<rparr>
      in (checkCellDimensions ev', ev'))"

subsection \<open>Inference of the cell dimensions\<close>

text \<open>
  \<open>low\<close> starts at plus infinity and \<open>high\<close> at minus infinity in every axis; an entry
  is \<open>Unset\<close> while it still holds that infinity and \<open>Seen v\<close> once a projected value
  has been assigned to it.
\<close>

datatype extent = Unset | Seen double

definition low_above :: "extent \<Rightarrow> double \<Rightarrow> bool" where
  \<comment> \<open>\<^verbatim>\<open>low[j] > v\<close>\<close>
  "low_above l v = (case l of Unset \<Rightarrow> True | Seen x \<Rightarrow> x > v)"

definition high_below :: "extent \<Rightarrow> double \<Rightarrow> bool" where
  \<comment> \<open>\<^verbatim>\<open>high[j] < v\<close>\<close>
  "high_below h v = (case h of Unset \<Rightarrow> True | Seen x \<Rightarrow> x < v)"

definition sampleUniform :: "'s ProjectionEvaluator \<Rightarrow> 's \<times> 's ProjectionEvaluator" where
  "sampleUniform ev = (samples ev (drawn ev), ev\<lparr>drawn := Suc (drawn ev)\<rparr>)"

definition track_axis ::
  "double list \<Rightarrow> nat \<Rightarrow> extent list \<times> extent list \<Rightarrow> extent list \<times> extent list" where
  "track_axis values j lh =
     (let low = fst lh; high = snd lh;
          low' = (if low_above (low ! j) (values ! j) then low[j := Seen (values ! j)] else low);
          high' = (if high_below (high ! j) (values ! j) then high[j := Seen (values ! j)] else high)
      in (low', high'))"

definition track_extents ::
  "nat \<Rightarrow> double list \<Rightarrow> extent list \<times> extent list \<Rightarrow> extent list \<times> extent list" where
  \<comment> \<open>the loop over \<open>j\<close> inside the sampling loop\<close>
  "track_extents d values lh = fold (track_axis values) [0..<d] lh"

function sample_extents ::
  "nat \<Rightarrow> nat \<Rightarrow> 's ProjectionEvaluator \<Rightarrow> extent list \<times> extent list
   \<Rightarrow> 's ProjectionEvaluator \<times> extent list \<times> extent list" where
  "sample_extents n i ev lh =
     (if i < n then
        (let (s, ev') = sampleUniform ev;
             values = project ev' s
         in sample_extents n (Suc i) ev' (track_extents (getDimension ev') values lh))
      else (ev, lh))"
  by pat_completeness auto
termination
  by (relation "measure (\<lambda>(n, i, ev, lh). n - i)") auto

declare sample_extents.simps [simp del]

text \<open>
  The two tunable constants \<^verbatim>\<open>magic::PROJECTION_EXTENTS_SAMPLES\<close> and
  \<^verbatim>\<open>magic::PROJECTION_DIMENSION_SPLITS\<close> are declared in \<^verbatim>\<open>MagicConstants.h\<close>; they are
  parameters here, \<open>extents_samples\<close> and \<open>splits\<close>. The split factor is a positive
  number of cells: for a positive \<open>splits\<close> the quotient \<open>(high - low) / splits\<close> is minus
  infinity as long as one of the two bounds is unset, which is \<open>None\<close> below.
\<close>

definition inferred_width :: "extent \<Rightarrow> extent \<Rightarrow> double \<Rightarrow> double option" where
  \<comment> \<open>\<^verbatim>\<open>(high[j] - low[j]) / magic::PROJECTION_DIMENSION_SPLITS\<close>\<close>
  "inferred_width h l splits =
     (case (h, l) of (Seen x, Seen y) \<Rightarrow> Some ((x - y) / splits) | _ \<Rightarrow> None)"

definition below_epsilon :: "double option \<Rightarrow> bool" where
  \<comment> \<open>\<^verbatim>\<open>cellDimensions_[j] < std::numeric_limits<double>::epsilon()\<close>\<close>
  "below_epsilon w = (case w of None \<Rightarrow> True | Some x \<Rightarrow> x < epsilon)"

definition resize :: "nat \<Rightarrow> 'a \<Rightarrow> 'a list \<Rightarrow> 'a list" where
  \<comment> \<open>\<^verbatim>\<open>std::vector::resize\<close>: cut, or fill up with the value-initialised element\<close>
  "resize n z xs = take n xs @ replicate (n - length xs) z"

definition store_width ::
  "double \<Rightarrow> extent list \<Rightarrow> extent list \<Rightarrow> nat \<Rightarrow> 's ProjectionEvaluator \<Rightarrow> 's ProjectionEvaluator" where
  "store_width splits low high j ev =
     (let w = inferred_width (high ! j) (low ! j) splits
      in if below_epsilon w
         then ev\<lparr>cellDimensions := (cellDimensions ev)[j := 1], warnings := warnings ev @ [j]\<rparr>
         else ev\<lparr>cellDimensions := (cellDimensions ev)[j := the w]\<rparr>)"

definition inferCellDimensions ::
  "nat \<Rightarrow> double \<Rightarrow> 's ProjectionEvaluator \<Rightarrow> 's ProjectionEvaluator" where
  "inferCellDimensions extents_samples splits ev =
     (let d = getDimension ev
      in if d > 0 then
           (let (ev1, low, high) =
                  sample_extents extents_samples 0 ev (replicate d Unset, replicate d Unset);
                ev2 = ev1\<lparr>cellDimensions := resize d 0 (cellDimensions ev1)\<rparr>
            in fold (store_width splits low high) [0..<d] ev2)
         else ev)"

text \<open>\<open>setupEvaluator\<close> is \<^verbatim>\<open>ProjectionEvaluator::setup\<close>.\<close>

definition setupEvaluator ::
  "nat \<Rightarrow> double \<Rightarrow> 's ProjectionEvaluator \<Rightarrow> unit outcome \<times> 's ProjectionEvaluator" where
  "setupEvaluator extents_samples splits ev =
     (let ev' = (if length (cellDimensions ev) = 0 \<and> getDimension ev > 0
                 then inferCellDimensions extents_samples splits ev else ev)
      in (checkCellDimensions ev', ev'))"

subsection \<open>Grid coordinates\<close>

definition int_cast :: "double \<Rightarrow> int option" where
  \<comment> \<open>\<^verbatim>\<open>(int)x\<close>: the fraction is cut off; undefined when the result is no \<^verbatim>\<open>int\<close>\<close>
  "int_cast x =
     (let t = (if x \<ge> 0 then \<lfloor>x\<rfloor> else \<lceil>x\<rceil>)
      in if INT_MIN \<le> t \<and> t \<le> INT_MAX then Some t else None)"

text \<open>
  The coordinate is an integer, and which integer it is depends on the rounding of the
  quotient: 1.0 divided by the double nearest to 0.1 is a little less than 10 as a real
  number and is 10.0 as a double. So the division is modelled as the double division:
  the real quotient rounded to the nearest double, a tie to the double with the even
  last digit. \<open>to_double x\<close> is that rounding (53 binary digits, the least exponent
  -1074 of the subnormal doubles); it is \<open>None\<close> when the magnitude rounds to \<open>2 ^ 1024\<close> or
  more (the infinity), and \<open>fdiv x 0\<close> is \<open>None\<close>, too (an infinity or a NaN).
\<close>

definition round_half_even :: "real \<Rightarrow> int" where
  "round_half_even x =
     (let f = \<lfloor>x\<rfloor>; r = x - of_int f
      in if r < 1 / 2 then f else if 1 / 2 < r then f + 1 else if even f then f else f + 1)"

definition to_double :: "real \<Rightarrow> double option" where
  "to_double x =
     (if x = 0 then Some 0
      else
        (let e = max (\<lfloor>log 2 \<bar>x\<bar>\<rfloor> - 52) (- 1074);
             r = of_int (round_half_even (x / 2 powi e)) * 2 powi e
         in if \<bar>r\<bar> < 2 ^ 1024 then Some r else None))"

definition fdiv :: "double \<Rightarrow> double \<Rightarrow> double option" where
  \<comment> \<open>\<^verbatim>\<open>x / y\<close> on doubles\<close>
  "fdiv x y = (if y = 0 then None else to_double (x / y))"

definition coordinate :: "double list \<Rightarrow> double list \<Rightarrow> nat \<Rightarrow> int option" where
  \<comment> \<open>\<^verbatim>\<open>(int)floor(projection.values[i]/cellDimensions_[i])\<close>\<close>
  "coordinate values cells i =
     (if i < length values \<and> i < length cells
      then (case fdiv (values ! i) (cells ! i) of
              None \<Rightarrow> None
            | Some quo \<Rightarrow> int_cast (of_int \<lfloor>quo\<rfloor>))
      else None)"

function coordinates_from ::
  "'s ProjectionEvaluator \<Rightarrow> double list \<Rightarrow> nat \<Rightarrow> int list \<Rightarrow> int list outcome" where
  "coordinates_from ev values i coord =
     (if i < getDimension ev then
        (case coordinate values (cellDimensions ev) i of
           None \<Rightarrow> Undefined
         | Some c \<Rightarrow> coordinates_from ev values (Suc i) (coord[i := c]))
      else Returns coord)"
  by pat_completeness auto
termination
  by (relation "measure (\<lambda>(ev, values, i, coord). getDimension ev - i)") auto

declare coordinates_from.simps [simp del]

definition computeCoordinates ::
  "'s ProjectionEvaluator \<Rightarrow> double list \<Rightarrow> int list \<Rightarrow> int list outcome" where
  \<comment> \<open>\<open>coord\<close> is the vector the caller passes in to be filled\<close>
  "computeCoordinates ev projection coord =
     coordinates_from ev projection 0 (resize (getDimension ev) 0 coord)"

section \<open>ProjectionMatrix\<close>

text \<open>
  A matrix is a vector of rows (\<^verbatim>\<open>std::vector<std::valarray<double>>\<close>). The random
  number generator is local to \<^verbatim>\<open>ComputeRandom\<close>; \<open>draws k\<close> is the value its call
  number \<open>k\<close> of \<^verbatim>\<open>gaussian01\<close> returns, counted from 0. The matrix is filled row by row.

  A row that \<^verbatim>\<open>ComputeRandom\<close> works on holds real numbers (\<open>Values\<close>), or a NaN in
  every entry (\<open>NaNs\<close>). The second comes about when a row of zeros is normalised: its
  norm is 0, and every entry becomes 0 / 0. From then on the NaN spreads: the sum of
  the products with such a row is a NaN, and so is every entry of a row it is
  subtracted from. A row with no entry at all (\<open>from = 0\<close>) holds no NaN.

  The numbers in a row are real numbers, and the doubles follow them up to rounding as
  long as no row is, in real numbers, a row of zeros when it is normalised. Where it is
  one, the doubles hold zeros, too, and then NaNs (three rows of length 1 with the
  entries 2), or they hold a rounding error, which the normalisation makes a row of
  norm 1. The rows from \<open>from + 1\<close> on are of this kind, as a rule, when the rows before
  them hold numbers: the rows 1 to \<open>from\<close> span the whole space then. So the rows are
  described for \<open>to \<le> from + 1\<close> only.
\<close>

type_synonym Matrix = "double list list"

datatype valarray = Values (entries: "double list") | NaNs

definition random_matrix :: "(nat \<Rightarrow> double) \<Rightarrow> nat \<Rightarrow> nat \<Rightarrow> valarray list" where
  "random_matrix draws from to =
     map (\<lambda>i. Values (map (\<lambda>j. draws (i * from + j)) [0..<from])) [0..<to]"

definition dot :: "double list \<Rightarrow> double list \<Rightarrow> double" where
  \<comment> \<open>\<^verbatim>\<open>(row * prevRow).sum()\<close>\<close>
  "dot xs ys = sum_list (map2 (*) xs ys)"

definition subtract_projection :: "valarray \<Rightarrow> valarray \<Rightarrow> valarray" where
  \<comment> \<open>\<^verbatim>\<open>row -= (row * prevRow).sum() * prevRow\<close>\<close>
  "subtract_projection row prevRow =
     (case (row, prevRow) of
        (Values r, Values p) \<Rightarrow> (let c = dot r p in Values (map2 (\<lambda>x y. x - c * y) r p))
      | _ \<Rightarrow> NaNs)"

definition orthogonalize :: "valarray list \<Rightarrow> nat \<Rightarrow> valarray" where
  \<comment> \<open>the loop over \<open>j < i\<close> on row \<open>i\<close>\<close>
  "orthogonalize projection i =
     fold (\<lambda>j row. subtract_projection row (projection ! j)) [0..<i] (projection ! i)"

definition normalize :: "valarray \<Rightarrow> valarray" where
  \<comment> \<open>\<^verbatim>\<open>row /= sqrt((row * row).sum())\<close>\<close>
  "normalize row =
     (case row of
        NaNs \<Rightarrow> NaNs
      | Values r \<Rightarrow>
          (let n = sqrt (dot r r)
           in if n = 0 then (if r = [] then Values [] else NaNs)
              else Values (map (\<lambda>x. x / n) r)))"

function orthonormalize_rows :: "nat \<Rightarrow> nat \<Rightarrow> valarray list \<Rightarrow> valarray list" where
  "orthonormalize_rows to i projection =
     (if i < to then
        orthonormalize_rows to (Suc i) (projection[i := normalize (orthogonalize projection i)])
      else projection)"
  by pat_completeness auto
termination
  by (relation "measure (\<lambda>(to, i, projection). to - i)") auto

declare orthonormalize_rows.simps [simp del]

text \<open>
  The scaling loops. The test of \<^verbatim>\<open>scale[i]\<close> stands inside the loop over \<open>j\<close>, and
  \<open>i\<close> runs over the rows: \<^verbatim>\<open>scale[i]\<close> is read beyond the end of the vector when a row
  index reaches the length of \<open>scale\<close>.
\<close>

definition divide_entry :: "valarray \<Rightarrow> nat \<Rightarrow> double \<Rightarrow> valarray" where
  \<comment> \<open>\<^verbatim>\<open>projection[i][j] /= scale[i]\<close>\<close>
  "divide_entry row j s = (case row of Values r \<Rightarrow> Values (r[j := r ! j / s]) | NaNs \<Rightarrow> NaNs)"

function scale_row ::
  "double list \<Rightarrow> nat \<Rightarrow> nat \<Rightarrow> nat \<Rightarrow> valarray list \<Rightarrow> valarray list outcome" where
  "scale_row scale from i j projection =
     (if j < from then
        (if \<not> i < length scale then Undefined
         else if \<bar>scale ! i\<bar> < epsilon then Throws DegenerateScale
         else scale_row scale from i (Suc j)
                (projection[i := divide_entry (projection ! i) j (scale ! i)]))
      else Returns projection)"
  by pat_completeness auto
termination
  by (relation "measure (\<lambda>(scale, from, i, j, projection). from - j)") auto

declare scale_row.simps [simp del]

function scale_rows ::
  "double list \<Rightarrow> nat \<Rightarrow> nat \<Rightarrow> nat \<Rightarrow> valarray list \<Rightarrow> valarray list outcome" where
  "scale_rows scale from to i projection =
     (if i < to then
        (case scale_row scale from i 0 projection of
           Returns projection' \<Rightarrow> scale_rows scale from to (Suc i) projection'
         | Throws e \<Rightarrow> Throws e
         | Undefined \<Rightarrow> Undefined)
      else Returns projection)"
  by pat_completeness auto
termination
  by (relation "measure (\<lambda>(scale, from, to, i, projection). to - i)") auto

declare scale_rows.simps [simp del]

definition ComputeRandom ::
  "(nat \<Rightarrow> double) \<Rightarrow> nat \<Rightarrow> nat \<Rightarrow> double list \<Rightarrow> valarray list outcome" where
  "ComputeRandom draws from to scale =
     (let projection = orthonormalize_rows to 1 (random_matrix draws from to)
      in if length scale = from then scale_rows scale from to 0 projection
         else Returns projection)"

text \<open>
  \<^verbatim>\<open>ProjectionMatrix::project\<close> reads the array \<open>from\<close> and writes the array \<open>to\<close>,
  which are taken to be two arrays.
\<close>

definition project_row :: "double list \<Rightarrow> double list \<Rightarrow> double" where
  \<comment> \<open>\<^verbatim>\<open>*pos = 0.0\<close>, then \<^verbatim>\<open>*pos += from[j] * vec[j]\<close> for every \<open>j\<close>\<close>
  "project_row from vec = fold (\<lambda>j pos. pos + from ! j * vec ! j) [0..<length vec] 0"

definition ProjectionMatrix_project :: "Matrix \<Rightarrow> double list \<Rightarrow> double list \<Rightarrow> double list" where
  "ProjectionMatrix_project mat from to =
     fold (\<lambda>i to'. to'[i := project_row from (mat ! i)]) [0..<length mat] to"

section \<open>Basic facts about the evaluator\<close>

lemma exceptions_distinct:
  "InvalidDimension \<noteq> CellDimensionMismatch" "CellDimensionMismatch \<noteq> InvalidDimension"
  "InvalidDimension \<noteq> DegenerateScale" "CellDimensionMismatch \<noteq> DegenerateScale"
  by (simp_all add: InvalidDimension_def CellDimensionMismatch_def DegenerateScale_def)

lemma length_resize: "length (resize n z xs) = n"
  by (simp add: resize_def)

lemma resize_same: "length xs = n \<Longrightarrow> resize n z xs = xs"
  by (simp add: resize_def)

lemma sample_extents_evaluator:
  "fst (sample_extents n i ev lh) = ev\<lparr>drawn := drawn ev + (n - i)\<rparr>"
proof (induction n i ev lh rule: sample_extents.induct)
  case (1 n i ev lh)
  show ?case
  proof (cases "i < n")
    case True
    have "fst (sample_extents n i ev lh) =
          fst (sample_extents n (Suc i) (snd (sampleUniform ev))
                (track_extents (getDimension (snd (sampleUniform ev)))
                   (project (snd (sampleUniform ev)) (fst (sampleUniform ev))) lh))"
      using True by (subst sample_extents.simps) (simp add: case_prod_unfold Let_def)
    also have "\<dots> = (snd (sampleUniform ev))\<lparr>drawn := drawn (snd (sampleUniform ev)) + (n - Suc i)\<rparr>"
      using True "1.IH"[of "sampleUniform ev" "fst (sampleUniform ev)" "snd (sampleUniform ev)"]
      by (simp add: prod_eq_iff)
    also have "\<dots> = ev\<lparr>drawn := drawn ev + (n - i)\<rparr>"
      using True by (simp add: sampleUniform_def Suc_diff_Suc)
    finally show ?thesis .
  next
    case False
    then show ?thesis by (subst sample_extents.simps) simp
  qed
qed

lemma store_width_fields:
  "getDimension (store_width sp low high j ev) = getDimension ev"
  "project (store_width sp low high j ev) = project ev"
  "samples (store_width sp low high j ev) = samples ev"
  "drawn (store_width sp low high j ev) = drawn ev"
  "length (cellDimensions (store_width sp low high j ev)) = length (cellDimensions ev)"
  by (simp_all add: store_width_def Let_def)

lemma fold_store_width_fields:
  "getDimension (fold (store_width sp low high) js ev) = getDimension ev"
  "project (fold (store_width sp low high) js ev) = project ev"
  "samples (fold (store_width sp low high) js ev) = samples ev"
  "drawn (fold (store_width sp low high) js ev) = drawn ev"
  "length (cellDimensions (fold (store_width sp low high) js ev)) = length (cellDimensions ev)"
  by (induction js arbitrary: ev; simp add: store_width_fields)+

lemma inferCellDimensions_zero:
  "getDimension ev = 0 \<Longrightarrow> inferCellDimensions n sp ev = ev"
  by (simp add: inferCellDimensions_def)

lemma inferCellDimensions_fields:
  "getDimension (inferCellDimensions n sp ev) = getDimension ev"
  "project (inferCellDimensions n sp ev) = project ev"
  "samples (inferCellDimensions n sp ev) = samples ev"
  by (simp_all add: inferCellDimensions_def Let_def case_prod_unfold fold_store_width_fields
        sample_extents_evaluator)

lemma inferCellDimensions_drawn:
  "0 < getDimension ev \<Longrightarrow> drawn (inferCellDimensions n sp ev) = drawn ev + n"
  by (simp add: inferCellDimensions_def Let_def case_prod_unfold fold_store_width_fields
        sample_extents_evaluator)

lemma inferCellDimensions_length:
  "0 < getDimension ev \<Longrightarrow>
   length (cellDimensions (inferCellDimensions n sp ev)) = getDimension ev"
  by (simp add: inferCellDimensions_def Let_def case_prod_unfold fold_store_width_fields
        length_resize)

lemma checkCellDimensions_cases:
  "checkCellDimensions ev =
     (if getDimension ev = 0 then Throws InvalidDimension
      else if length (cellDimensions ev) \<noteq> getDimension ev then Throws CellDimensionMismatch
      else Returns ())"
  by (simp add: checkCellDimensions_def)

lemma setupEvaluator_unchanged:
  "cellDimensions ev \<noteq> [] \<or> getDimension ev = 0 \<Longrightarrow>
   setupEvaluator n sp ev = (checkCellDimensions ev, ev)"
  by (auto simp add: setupEvaluator_def)

lemma setupEvaluator_returns_iff:
  "fst (setupEvaluator n sp ev) = Returns () \<longleftrightarrow>
     0 < getDimension ev \<and>
     (cellDimensions ev = [] \<or> length (cellDimensions ev) = getDimension ev)"
proof (cases "cellDimensions ev = [] \<and> 0 < getDimension ev")
  case True
  then have "fst (setupEvaluator n sp ev) = checkCellDimensions (inferCellDimensions n sp ev)"
    by (simp add: setupEvaluator_def Let_def)
  then show ?thesis
    using True
    by (simp add: checkCellDimensions_cases inferCellDimensions_fields inferCellDimensions_length)
next
  case False
  then have "setupEvaluator n sp ev = (checkCellDimensions ev, ev)"
    by (intro setupEvaluator_unchanged) auto
  then show ?thesis
    using False by (auto simp add: checkCellDimensions_cases)
qed

section \<open>Validation of the configuration\<close>

text \<open>
  Claim C8. \<open>checkCellDimensions\<close> throws exactly when the dimension is zero (the
  exception \<open>InvalidDimension\<close>) or the stored vector of cell dimensions has another
  length than the dimension (\<open>CellDimensionMismatch\<close>); otherwise it returns.
  \<open>setCellDimensions\<close> and \<open>setupEvaluator\<close> end with this check, made on the evaluator
  they leave behind, so \<open>setCellDimensions\<close> with a vector of another length than the
  dimension always throws, and \<open>setupEvaluator\<close> returns exactly when the dimension is
  positive and the vector is empty (it is inferred then) or of the right length.
\<close>

theorem checkCellDimensions_fails_exactly:
  "(checkCellDimensions ev = Throws InvalidDimension \<longleftrightarrow> getDimension ev = 0)
   \<and> (checkCellDimensions ev = Throws CellDimensionMismatch \<longleftrightarrow>
        0 < getDimension ev \<and> length (cellDimensions ev) \<noteq> getDimension ev)
   \<and> (checkCellDimensions ev = Returns () \<longleftrightarrow>
        0 < getDimension ev \<and> length (cellDimensions ev) = getDimension ev)
   \<and> checkCellDimensions ev \<noteq> Undefined
   \<and> fst (setCellDimensions dims ev) = checkCellDimensions (ev\<lparr>cellDimensions := dims\<rparr>)
   \<and> fst (setupEvaluator n sp ev) = checkCellDimensions (snd (setupEvaluator n sp ev))
   \<and> (length dims \<noteq> getDimension ev \<longrightarrow>
        fst (setCellDimensions dims ev) =
          (if getDimension ev = 0 then Throws InvalidDimension else Throws CellDimensionMismatch))
   \<and> (fst (setupEvaluator n sp ev) = Returns () \<longleftrightarrow>
        0 < getDimension ev \<and>
        (cellDimensions ev = [] \<or> length (cellDimensions ev) = getDimension ev))"
proof -
  have a: "checkCellDimensions ev = Throws InvalidDimension \<longleftrightarrow> getDimension ev = 0"
    by (simp add: checkCellDimensions_cases exceptions_distinct)
  have b: "checkCellDimensions ev = Throws CellDimensionMismatch \<longleftrightarrow>
        0 < getDimension ev \<and> length (cellDimensions ev) \<noteq> getDimension ev"
    by (simp add: checkCellDimensions_cases exceptions_distinct)
  have c: "checkCellDimensions ev = Returns () \<longleftrightarrow>
        0 < getDimension ev \<and> length (cellDimensions ev) = getDimension ev"
    by (simp add: checkCellDimensions_cases)
  have d: "checkCellDimensions ev \<noteq> Undefined"
    by (simp add: checkCellDimensions_cases)
  have e: "fst (setCellDimensions dims ev) = checkCellDimensions (ev\<lparr>cellDimensions := dims\<rparr>)"
    by (simp add: setCellDimensions_def Let_def)
  have f: "fst (setupEvaluator n sp ev) = checkCellDimensions (snd (setupEvaluator n sp ev))"
    by (simp add: setupEvaluator_def Let_def)
  have g: "length dims \<noteq> getDimension ev \<longrightarrow>
        fst (setCellDimensions dims ev) =
          (if getDimension ev = 0 then Throws InvalidDimension else Throws CellDimensionMismatch)"
    by (simp add: setCellDimensions_def Let_def checkCellDimensions_cases)
  note h = setupEvaluator_returns_iff [of n sp ev]
  from a b c d e f g h show ?thesis by blast
qed

theorem checkCellDimensions_fails_exactly_witness:
  "fst (setCellDimensions [1, 2, 3]
     \<lparr>getDimension = 2, project = (\<lambda>s::real. [s, s]), cellDimensions = [1, 1],
      samples = (\<lambda>k. real k), drawn = 0, warnings = []\<rparr>) = Throws CellDimensionMismatch
   \<and> checkCellDimensions
     \<lparr>getDimension = 2, project = (\<lambda>s::real. [s, s]), cellDimensions = [1, 1],
      samples = (\<lambda>k. real k), drawn = 0, warnings = []\<rparr> = Returns ()"
proof -
  let ?ev = "\<lparr>getDimension = 2, project = (\<lambda>s::real. [s, s]), cellDimensions = [1, 1],
      samples = (\<lambda>k. real k), drawn = 0, warnings = []\<rparr>"
  note t = checkCellDimensions_fails_exactly [of ?ev "[1, 2, 3]" 0 1]
  from t have "length [1, 2, 3 :: real] \<noteq> getDimension ?ev \<longrightarrow>
        fst (setCellDimensions [1, 2, 3] ?ev) =
          (if getDimension ?ev = 0 then Throws InvalidDimension else Throws CellDimensionMismatch)"
    by blast
  then have a: "fst (setCellDimensions [1, 2, 3] ?ev) = Throws CellDimensionMismatch"
    by simp
  from t have "checkCellDimensions ?ev = Returns () \<longleftrightarrow>
        0 < getDimension ?ev \<and> length (cellDimensions ?ev) = getDimension ?ev"
    by blast
  then have b: "checkCellDimensions ?ev = Returns ()"
    by simp
  from a b show ?thesis by blast
qed

text \<open>
  Claim C10. \<open>setCellDimensions\<close> assigns the vector before it checks it: when the check
  throws (the dimension is zero, or the length of the vector is not the dimension), the
  evaluator left behind is the old one with the rejected vector stored in place of the
  vector it held.
\<close>

theorem setCellDimensions_stores_before_check:
  "getDimension ev = 0 \<or> length dims \<noteq> getDimension ev \<Longrightarrow>
   (\<exists>e. fst (setCellDimensions dims ev) = Throws e)
   \<and> snd (setCellDimensions dims ev) = ev\<lparr>cellDimensions := dims\<rparr>
   \<and> cellDimensions (snd (setCellDimensions dims ev)) = dims"
  by (auto simp add: setCellDimensions_def Let_def checkCellDimensions_cases)

theorem setCellDimensions_stores_before_check_witness:
  "(\<exists>e. fst (setCellDimensions [5]
       \<lparr>getDimension = 2, project = (\<lambda>s::real. [s, s]), cellDimensions = [1, 2],
        samples = (\<lambda>k. real k), drawn = 0, warnings = []\<rparr>) = Throws e)
   \<and> cellDimensions (snd (setCellDimensions [5]
       \<lparr>getDimension = 2, project = (\<lambda>s::real. [s, s]), cellDimensions = [1, 2],
        samples = (\<lambda>k. real k), drawn = 0, warnings = []\<rparr>)) = [5]
   \<and> [5] \<noteq> [1, 2 :: real]"
  using setCellDimensions_stores_before_check
    [of "\<lparr>getDimension = 2, project = (\<lambda>s::real. [s, s]), cellDimensions = [1, 2],
          samples = (\<lambda>k. real k), drawn = 0, warnings = []\<rparr>" "[5]"]
  by simp

section \<open>Setting the evaluator up\<close>

text \<open>
  Claim C7. \<open>setupEvaluator\<close> infers the cell dimensions exactly when none are stored
  and the dimension is positive, and then always checks. It is idempotent: after a call
  that returned, and after a call of \<open>setCellDimensions\<close> that returned, a further call
  returns and leaves the whole evaluator as it is (the stored vector, and also the number
  of samples drawn and the warnings, so nothing was inferred). After a call of
  \<open>setCellDimensions\<close> with a vector that is not empty, whether it returned or threw,
  \<open>setupEvaluator\<close> leaves the evaluator as it is, too.
\<close>

theorem setupEvaluator_idempotent:
  "snd (setupEvaluator n sp ev) =
     (if length (cellDimensions ev) = 0 \<and> 0 < getDimension ev
      then inferCellDimensions n sp ev else ev)
   \<and> fst (setupEvaluator n sp ev) = checkCellDimensions (snd (setupEvaluator n sp ev))
   \<and> (fst (setupEvaluator n sp ev) = Returns () \<longrightarrow>
        setupEvaluator n sp (snd (setupEvaluator n sp ev)) =
          (Returns (), snd (setupEvaluator n sp ev)))
   \<and> (fst (setCellDimensions dims ev) = Returns () \<longrightarrow>
        setupEvaluator n sp (snd (setCellDimensions dims ev)) =
          (Returns (), snd (setCellDimensions dims ev)))
   \<and> (dims \<noteq> [] \<longrightarrow>
        snd (setupEvaluator n sp (snd (setCellDimensions dims ev))) =
          snd (setCellDimensions dims ev))"
proof -
  let ?ev1 = "snd (setupEvaluator n sp ev)"
  let ?ev2 = "snd (setCellDimensions dims ev)"
  have a: "?ev1 = (if length (cellDimensions ev) = 0 \<and> 0 < getDimension ev
      then inferCellDimensions n sp ev else ev)"
    by (simp add: setupEvaluator_def Let_def)
  have b: "fst (setupEvaluator n sp ev) = checkCellDimensions ?ev1"
    by (simp add: setupEvaluator_def Let_def)
  have c: "setupEvaluator n sp ?ev1 = (Returns (), ?ev1)"
    if ok: "fst (setupEvaluator n sp ev) = Returns ()"
  proof -
    from ok b have chk: "checkCellDimensions ?ev1 = Returns ()" by simp
    then have "cellDimensions ?ev1 \<noteq> []"
      by (auto simp add: checkCellDimensions_cases split: if_splits)
    then have "setupEvaluator n sp ?ev1 = (checkCellDimensions ?ev1, ?ev1)"
      by (intro setupEvaluator_unchanged) simp
    with chk show ?thesis by simp
  qed
  have d: "setupEvaluator n sp ?ev2 = (Returns (), ?ev2)"
    if ok: "fst (setCellDimensions dims ev) = Returns ()"
  proof -
    from ok have chk: "checkCellDimensions ?ev2 = Returns ()"
      by (simp add: setCellDimensions_def Let_def)
    then have "cellDimensions ?ev2 \<noteq> []"
      by (auto simp add: checkCellDimensions_cases split: if_splits)
    then have "setupEvaluator n sp ?ev2 = (checkCellDimensions ?ev2, ?ev2)"
      by (intro setupEvaluator_unchanged) simp
    with chk show ?thesis by simp
  qed
  have e: "snd (setupEvaluator n sp ?ev2) = ?ev2" if "dims \<noteq> []"
  proof -
    from that have "cellDimensions ?ev2 \<noteq> []"
      by (simp add: setCellDimensions_def Let_def)
    then have "setupEvaluator n sp ?ev2 = (checkCellDimensions ?ev2, ?ev2)"
      by (intro setupEvaluator_unchanged) simp
    then show ?thesis by simp
  qed
  from a b c d e show ?thesis by blast
qed

theorem setupEvaluator_idempotent_witness:
  "fst (setupEvaluator 3 2
     \<lparr>getDimension = 1, project = (\<lambda>s::real. [s]), cellDimensions = [],
      samples = (\<lambda>k. real k), drawn = 0, warnings = []\<rparr>) = Returns ()
   \<and> setupEvaluator 3 2 (snd (setupEvaluator 3 2
       \<lparr>getDimension = 1, project = (\<lambda>s::real. [s]), cellDimensions = [],
        samples = (\<lambda>k. real k), drawn = 0, warnings = []\<rparr>)) =
     (Returns (), snd (setupEvaluator 3 2
       \<lparr>getDimension = 1, project = (\<lambda>s::real. [s]), cellDimensions = [],
        samples = (\<lambda>k. real k), drawn = 0, warnings = []\<rparr>))
   \<and> fst (setCellDimensions [4]
       \<lparr>getDimension = 1, project = (\<lambda>s::real. [s]), cellDimensions = [],
        samples = (\<lambda>k. real k), drawn = 0, warnings = []\<rparr>) = Returns ()
   \<and> setupEvaluator 3 2 (snd (setCellDimensions [4]
       \<lparr>getDimension = 1, project = (\<lambda>s::real. [s]), cellDimensions = [],
        samples = (\<lambda>k. real k), drawn = 0, warnings = []\<rparr>)) =
     (Returns (), snd (setCellDimensions [4]
       \<lparr>getDimension = 1, project = (\<lambda>s::real. [s]), cellDimensions = [],
        samples = (\<lambda>k. real k), drawn = 0, warnings = []\<rparr>))"
proof -
  let ?ev = "\<lparr>getDimension = 1, project = (\<lambda>s::real. [s]), cellDimensions = [],
        samples = (\<lambda>k. real k), drawn = 0, warnings = []\<rparr>"
  have s: "fst (setupEvaluator 3 2 ?ev) = Returns ()"
    by (simp add: setupEvaluator_returns_iff)
  have c: "fst (setCellDimensions [4] ?ev) = Returns ()"
    by (simp add: setCellDimensions_def Let_def checkCellDimensions_cases)
  from s c setupEvaluator_idempotent [of 3 2 ?ev "[4]"] show ?thesis
    by blast
qed

section \<open>Grid coordinates\<close>

subsection \<open>The double division\<close>

lemma floor_log2_eq:
  assumes "2 powi k \<le> x" "x < 2 powi (k + 1)"
  shows "\<lfloor>log 2 x\<rfloor> = k"
proof -
  have "0 < (2::real) powi k" by simp
  with assms have x: "0 < x" by linarith
  have a: "(2::real) powr (of_int k) = 2 powi k"
    by (rule powr_real_of_int') simp_all
  have "(2::real) powr (of_int k + 1) = 2 powr (of_int (k + 1))"
    by simp
  also have "\<dots> = 2 powi (k + 1)"
    by (rule powr_real_of_int') simp_all
  finally have b: "(2::real) powr (of_int k + 1) = 2 powi (k + 1)" .
  from assms have "2 powr (of_int k) \<le> x \<and> x < 2 powr (of_int k + 1)"
    by (simp only: a b)
  with x show ?thesis
    by (simp add: floor_log_eq_powr_iff)
qed

lemma to_double_rounds:
  assumes "2 powi k \<le> \<bar>x\<bar>" "\<bar>x\<bar> < 2 powi (k + 1)"
    and "round_half_even (x / 2 powi (max (k - 52) (- 1074))) = n"
    and "\<bar>of_int n * 2 powi (max (k - 52) (- 1074))\<bar> < (2::real) ^ 1024"
  shows "to_double x = Some (of_int n * 2 powi (max (k - 52) (- 1074)))"
proof -
  have "0 < (2::real) powi k" by simp
  with assms(1) have "0 < \<bar>x\<bar>" by linarith
  then have x: "x \<noteq> 0" by simp
  from assms(1,2) have "\<lfloor>log 2 \<bar>x\<bar>\<rfloor> = k" by (rule floor_log2_eq)
  with x assms(3,4) show ?thesis
    by (simp add: to_double_def Let_def)
qed

lemma round_half_even_of_int: "round_half_even (of_int n) = n"
  by (simp add: round_half_even_def)

lemma to_double_exact:
  assumes "2 powi k \<le> \<bar>x\<bar>" "\<bar>x\<bar> < 2 powi (k + 1)"
    and "x / 2 powi (max (k - 52) (- 1074)) = of_int n"
    and "\<bar>x\<bar> < 2 ^ 1024"
  shows "to_double x = Some x"
proof -
  let ?e = "max (k - 52) (- 1074)"
  have p: "(2::real) powi ?e \<noteq> 0" by simp
  from assms(3) have x: "of_int n * 2 powi ?e = x"
    using p by (simp add: field_simps)
  have "to_double x = Some (of_int n * 2 powi ?e)"
    using assms(1,2)
  proof (rule to_double_rounds)
    show "round_half_even (x / 2 powi ?e) = n"
      by (simp only: assms(3) round_half_even_of_int)
    show "\<bar>of_int n * 2 powi ?e\<bar> < (2::real) ^ 1024"
      using assms(4) by (simp only: x)
  qed
  then show ?thesis by (simp only: x)
qed

lemma fdiv_by_one: "fdiv x 1 = to_double x"
  by (simp add: fdiv_def)

text \<open>
  Doubles that divided by 1.0 give themselves: -0.5, 0, 1, 4294967296, and the doubles
  nearest to 0.99 and to 1.01, which are \<open>4458563631096791 / 2 ^ 52\<close> and
  \<open>4548635623644201 / 2 ^ 52\<close>.
\<close>

lemma to_double_examples:
  "to_double (- (1 / 2)) = Some (- (1 / 2))"
  "to_double 0 = Some 0"
  "to_double (4458563631096791 / 2 ^ 52) = Some (4458563631096791 / 2 ^ 52)"
  "to_double 1 = Some 1"
  "to_double (4548635623644201 / 2 ^ 52) = Some (4548635623644201 / 2 ^ 52)"
  "to_double 4294967296 = Some 4294967296"
  "to_double (1 / 2) = Some (1 / 2)"
  "to_double (- (3 / 2)) = Some (- (3 / 2))"
proof -
  show "to_double (- (1 / 2)) = Some (- (1 / 2))"
    by (rule to_double_exact [of "- 1" _ "- (2 ^ 52)"]) simp_all
  show "to_double 0 = Some 0"
    by (simp add: to_double_def)
  show "to_double (4458563631096791 / 2 ^ 52) = Some (4458563631096791 / 2 ^ 52)"
    by (rule to_double_exact [of "- 1" _ "8917127262193582"]) simp_all
  show "to_double 1 = Some 1"
    by (rule to_double_exact [of 0 _ "2 ^ 52"]) simp_all
  show "to_double (4548635623644201 / 2 ^ 52) = Some (4548635623644201 / 2 ^ 52)"
    by (rule to_double_exact [of 0 _ "4548635623644201"]) simp_all
  show "to_double 4294967296 = Some 4294967296"
    by (rule to_double_exact [of 32 _ "2 ^ 52"]) simp_all
  show "to_double (1 / 2) = Some (1 / 2)"
    by (rule to_double_exact [of "- 1" _ "2 ^ 52"]) simp_all
  show "to_double (- (3 / 2)) = Some (- (3 / 2))"
    by (rule to_double_exact [of 0 _ "- (3 * 2 ^ 51)"]) simp_all
qed

text \<open>
  1.0 divided by the double nearest to 0.1, which is \<open>3602879701896397 / 2 ^ 55\<close>, is
  10.0: the real quotient lies between 9 and 10 and is rounded up.
\<close>

lemma fdiv_one_by_tenth: "fdiv 1 (3602879701896397 / 2 ^ 55) = Some 10"
proof -
  have "to_double (1 / (3602879701896397 / 2 ^ 55)) =
        Some (of_int 5629499534213120 * 2 powi (max (3 - 52) (- 1074)))"
    by (rule to_double_rounds) (simp_all add: round_half_even_def Let_def)
  then show ?thesis by (simp add: fdiv_def)
qed

subsection \<open>The loop over the axes\<close>

lemma int_cast_of_int:
  "int_cast (of_int z) = (if INT_MIN \<le> z \<and> z \<le> INT_MAX then Some z else None)"
  by (simp add: int_cast_def Let_def)

lemma coordinate_Some:
  "i < length vals \<Longrightarrow> i < length cells \<Longrightarrow> fdiv (vals ! i) (cells ! i) = Some q \<Longrightarrow>
   INT_MIN \<le> \<lfloor>q\<rfloor> \<Longrightarrow> \<lfloor>q\<rfloor> \<le> INT_MAX \<Longrightarrow>
   coordinate vals cells i = Some \<lfloor>q\<rfloor>"
  by (simp add: coordinate_def int_cast_of_int)

lemma coordinate_None_short:
  "length cells \<le> i \<Longrightarrow> coordinate vals cells i = None"
  by (simp add: coordinate_def)

lemma coordinate_None_zero:
  "cells ! i = 0 \<Longrightarrow> coordinate vals cells i = None"
  by (simp add: coordinate_def fdiv_def)

lemma coordinates_from_returns:
  "length coord = getDimension ev \<Longrightarrow>
   (\<And>i. k \<le> i \<Longrightarrow> i < getDimension ev \<Longrightarrow> coordinate v (cellDimensions ev) i = Some (f i)) \<Longrightarrow>
   coordinates_from ev v k coord =
     Returns (map (\<lambda>i. if i < k then coord ! i else f i) [0..<getDimension ev])"
proof (induction ev v k coord rule: coordinates_from.induct)
  case (1 ev v k coord)
  show ?case
  proof (cases "k < getDimension ev")
    case True
    have c: "coordinate v (cellDimensions ev) k = Some (f k)"
      using "1.prems"(2)[of k] True by simp
    have "coordinates_from ev v k coord = coordinates_from ev v (Suc k) (coord[k := f k])"
      using True c by (subst coordinates_from.simps) simp
    also have "\<dots> = Returns (map (\<lambda>i. if i < Suc k then coord[k := f k] ! i else f i)
                          [0..<getDimension ev])"
      using "1.IH"[OF True c] "1.prems" by simp
    also have "map (\<lambda>i. if i < Suc k then coord[k := f k] ! i else f i) [0..<getDimension ev]
             = map (\<lambda>i. if i < k then coord ! i else f i) [0..<getDimension ev]"
      using True "1.prems"(1) by (auto simp add: nth_list_update less_Suc_eq)
    finally show ?thesis .
  next
    case False
    have "map (\<lambda>i. if i < k then coord ! i else f i) [0..<getDimension ev]
        = map (\<lambda>i. coord ! i) [0..<length coord]"
      using False "1.prems"(1) by auto
    also have "\<dots> = coord" by (rule map_nth)
    finally show ?thesis
      using False by (subst coordinates_from.simps) simp
  qed
qed

lemma coordinates_from_undefined:
  "k \<le> i \<Longrightarrow> i < getDimension ev \<Longrightarrow> coordinate v (cellDimensions ev) i = None \<Longrightarrow>
   coordinates_from ev v k coord = Undefined"
proof (induction ev v k coord rule: coordinates_from.induct)
  case (1 ev v k coord)
  from "1.prems" have lt: "k < getDimension ev" by simp
  show ?case
  proof (cases "coordinate v (cellDimensions ev) k")
    case None
    then show ?thesis using lt by (subst coordinates_from.simps) simp
  next
    case (Some c)
    with "1.prems" have "k \<noteq> i" by auto
    with "1.prems" have "Suc k \<le> i" by simp
    from "1.IH"[OF lt Some this "1.prems"(2,3)]
    show ?thesis using lt Some by (subst coordinates_from.simps) simp
  qed
qed

lemma coordinates_from_never_throws:
  "coordinates_from ev v k coord \<noteq> Throws e"
proof (induction ev v k coord rule: coordinates_from.induct)
  case (1 ev v k coord)
  show ?case
  proof (cases "k < getDimension ev")
    case True
    show ?thesis
    proof (cases "coordinate v (cellDimensions ev) k")
      case None
      then show ?thesis using True by (subst coordinates_from.simps) simp
    next
      case (Some c)
      from "1.IH"[OF True Some]
      show ?thesis using True Some by (subst coordinates_from.simps) simp
    qed
  next
    case False
    then show ?thesis by (subst coordinates_from.simps) simp
  qed
qed

lemma computeCoordinates_returns:
  assumes "getDimension ev \<le> length (cellDimensions ev)"
    and "getDimension ev \<le> length projection"
    and "\<And>i. i < getDimension ev \<Longrightarrow>
           fdiv (projection ! i) (cellDimensions ev ! i) = Some (q i) \<and>
           INT_MIN \<le> \<lfloor>q i\<rfloor> \<and> \<lfloor>q i\<rfloor> \<le> INT_MAX"
  shows "computeCoordinates ev projection coord =
     Returns (map (\<lambda>i. \<lfloor>q i\<rfloor>) [0..<getDimension ev])"
proof -
  have "coordinates_from ev projection 0 (resize (getDimension ev) 0 coord) =
     Returns (map (\<lambda>i. if i < 0 then resize (getDimension ev) 0 coord ! i else \<lfloor>q i\<rfloor>)
                [0..<getDimension ev])"
    using assms by (intro coordinates_from_returns coordinate_Some) (simp_all add: length_resize)
  then show ?thesis by (simp add: computeCoordinates_def)
qed

lemma computeCoordinates_undefined:
  "i < getDimension ev \<Longrightarrow> coordinate projection (cellDimensions ev) i = None \<Longrightarrow>
   computeCoordinates ev projection coord = Undefined"
  unfolding computeCoordinates_def by (rule coordinates_from_undefined [of 0 i]) simp_all

lemma less_5_cases: "i < (5::nat) \<Longrightarrow> i = 0 \<or> i = 1 \<or> i = 2 \<or> i = 3 \<or> i = 4"
  by arith

lemma unit_cells_example:
  assumes "getDimension ev = 5" and "cellDimensions ev = [1, 1, 1, 1, 1]"
  shows "computeCoordinates ev
     [- (1 / 2), 0, 4458563631096791 / 2 ^ 52, 1, 4548635623644201 / 2 ^ 52] coord =
     Returns [- 1, 0, 0, 1, 1]"
proof -
  define a where "a = (4458563631096791 / 2 ^ 52 :: real)"
  define b where "b = (4548635623644201 / 2 ^ 52 :: real)"
  let ?p = "[- (1 / 2), 0, a, 1, b]"
  have da: "to_double a = Some a" and db: "to_double b = Some b"
    unfolding a_def b_def by (rule to_double_examples)+
  have fa: "\<lfloor>a\<rfloor> = 0" and fb: "\<lfloor>b\<rfloor> = 1"
    by (simp_all add: a_def b_def)
  have ra: "- 2147483648 \<le> a" "a < 2147483648" "- 2147483648 \<le> b" "b < 2147483648"
    by (simp_all add: a_def b_def)
  have u: "[0..<5] = [0, 1, 2, 3, 4]"
    by (simp add: upt_rec)
  have "computeCoordinates ev ?p coord =
        Returns (map (\<lambda>i. \<lfloor>?p ! i\<rfloor>) [0..<getDimension ev])"
  proof (rule computeCoordinates_returns)
    show "getDimension ev \<le> length (cellDimensions ev)" "getDimension ev \<le> length ?p"
      using assms by simp_all
    fix i assume "i < getDimension ev"
    with assms have "i = 0 \<or> i = 1 \<or> i = 2 \<or> i = 3 \<or> i = 4"
      by (intro less_5_cases) simp
    then show "fdiv (?p ! i) (cellDimensions ev ! i) = Some (?p ! i) \<and>
           INT_MIN \<le> \<lfloor>?p ! i\<rfloor> \<and> \<lfloor>?p ! i\<rfloor> \<le> INT_MAX"
      using assms(2)
      by (auto simp add: fdiv_by_one to_double_examples da db ra INT_MIN_def INT_MAX_def)
  qed
  then have "computeCoordinates ev ?p coord = Returns [- 1, 0, 0, 1, 1]"
    using assms(1) by (simp add: u fa fb)
  then show ?thesis
    unfolding a_def b_def .
qed

text \<open>
  Claim C1. On a configured evaluator (the stored vector has the length of the
  dimension) and a projection of that length, \<open>computeCoordinates\<close> returns in every
  axis the floor of the quotient of the projected value and the cell width, rounding
  down also for negative quotients, provided the quotient is a finite double (the cell
  width is not 0) and its floor is a value of the type \<^verbatim>\<open>int\<close>. The quotient is the
  quotient of the double division. With cell width 1 the values -0.5, 0, 0.99, 1, 1.01
  (the doubles nearest to them) give -1, 0, 0, 1, 1. Without the proviso the claim
  fails: the floor of 4294967296 / 1 is no \<^verbatim>\<open>int\<close> and the conversion is undefined, and
  so it is with a cell width 0.
\<close>

theorem computeCoordinates_floor:
  "(length (cellDimensions ev) = getDimension ev \<and> length projection = getDimension ev \<and>
    (\<forall>i<getDimension ev.
        fdiv (projection ! i) (cellDimensions ev ! i) = Some (q i) \<and>
        INT_MIN \<le> \<lfloor>q i\<rfloor> \<and> \<lfloor>q i\<rfloor> \<le> INT_MAX) \<longrightarrow>
    computeCoordinates ev projection coord =
      Returns (map (\<lambda>i. \<lfloor>q i\<rfloor>) [0..<getDimension ev]))
   \<and> (getDimension ev = 5 \<and> cellDimensions ev = [1, 1, 1, 1, 1] \<longrightarrow>
       computeCoordinates ev
         [- (1 / 2), 0, 4458563631096791 / 2 ^ 52, 1, 4548635623644201 / 2 ^ 52] coord =
         Returns [- 1, 0, 0, 1, 1])"
proof (intro conjI impI)
  assume h: "length (cellDimensions ev) = getDimension ev \<and> length projection = getDimension ev \<and>
    (\<forall>i<getDimension ev.
        fdiv (projection ! i) (cellDimensions ev ! i) = Some (q i) \<and>
        INT_MIN \<le> \<lfloor>q i\<rfloor> \<and> \<lfloor>q i\<rfloor> \<le> INT_MAX)"
  then show "computeCoordinates ev projection coord =
      Returns (map (\<lambda>i. \<lfloor>q i\<rfloor>) [0..<getDimension ev])"
    by (intro computeCoordinates_returns) simp_all
next
  assume "getDimension ev = 5 \<and> cellDimensions ev = [1, 1, 1, 1, 1]"
  then show "computeCoordinates ev
         [- (1 / 2), 0, 4458563631096791 / 2 ^ 52, 1, 4548635623644201 / 2 ^ 52] coord =
         Returns [- 1, 0, 0, 1, 1]"
    by (intro unit_cells_example) simp_all
qed

theorem computeCoordinates_floor_witness:
  "computeCoordinates
     \<lparr>getDimension = 1, project = (\<lambda>s::real. [s]), cellDimensions = [3602879701896397 / 2 ^ 55],
      samples = (\<lambda>k. real k), drawn = 0, warnings = []\<rparr> [1] [] = Returns [10]
   \<and> computeCoordinates
     \<lparr>getDimension = 5, project = (\<lambda>s::real. [s, s, s, s, s]), cellDimensions = [1, 1, 1, 1, 1],
      samples = (\<lambda>k. real k), drawn = 0, warnings = []\<rparr>
     [- (1 / 2), 0, 4458563631096791 / 2 ^ 52, 1, 4548635623644201 / 2 ^ 52] [] =
     Returns [- 1, 0, 0, 1, 1]"
proof -
  let ?tenth = "\<lparr>getDimension = 1, project = (\<lambda>s::real. [s]),
      cellDimensions = [3602879701896397 / 2 ^ 55],
      samples = (\<lambda>k. real k), drawn = 0, warnings = []\<rparr>"
  let ?unit = "\<lparr>getDimension = 5, project = (\<lambda>s::real. [s, s, s, s, s]),
      cellDimensions = [1, 1, 1, 1, 1],
      samples = (\<lambda>k. real k), drawn = 0, warnings = []\<rparr>"
  have h: "length (cellDimensions ?tenth) = getDimension ?tenth \<and>
    length [1::real] = getDimension ?tenth \<and>
    (\<forall>i<getDimension ?tenth.
        fdiv ([1] ! i) (cellDimensions ?tenth ! i) = Some ((\<lambda>i. 10) i) \<and>
        INT_MIN \<le> \<lfloor>(\<lambda>i. 10 :: real) i\<rfloor> \<and> \<lfloor>(\<lambda>i. 10 :: real) i\<rfloor> \<le> INT_MAX)"
    using fdiv_one_by_tenth by (simp add: INT_MIN_def INT_MAX_def)
  from computeCoordinates_floor [of ?tenth "[1]" "\<lambda>i. 10" "[]", THEN conjunct1, THEN mp, OF h]
  have a: "computeCoordinates ?tenth [1] [] = Returns [10]"
    by simp
  have b: "computeCoordinates ?unit
     [- (1 / 2), 0, 4458563631096791 / 2 ^ 52, 1, 4548635623644201 / 2 ^ 52] [] =
     Returns [- 1, 0, 0, 1, 1]"
    by (rule computeCoordinates_floor [of ?unit _ _ "[]", THEN conjunct2, THEN mp]) simp
  from a b show ?thesis by (intro conjI)
qed

theorem computeCoordinates_floor_counterexample:
  "checkCellDimensions
     \<lparr>getDimension = 1, project = (\<lambda>s::real. [s]), cellDimensions = [1],
      samples = (\<lambda>k. real k), drawn = 0, warnings = []\<rparr> = Returns ()
   \<and> computeCoordinates
     \<lparr>getDimension = 1, project = (\<lambda>s::real. [s]), cellDimensions = [1],
      samples = (\<lambda>k. real k), drawn = 0, warnings = []\<rparr> [4294967296] [] = Undefined
   \<and> fdiv 4294967296 1 = Some 4294967296
   \<and> computeCoordinates
     \<lparr>getDimension = 1, project = (\<lambda>s::real. [s]), cellDimensions = [1],
      samples = (\<lambda>k. real k), drawn = 0, warnings = []\<rparr> [4294967296] [] \<noteq>
     Returns [\<lfloor>4294967296 :: real\<rfloor>]
   \<and> checkCellDimensions
     \<lparr>getDimension = 1, project = (\<lambda>s::real. [s]), cellDimensions = [0],
      samples = (\<lambda>k. real k), drawn = 0, warnings = []\<rparr> = Returns ()
   \<and> computeCoordinates
     \<lparr>getDimension = 1, project = (\<lambda>s::real. [s]), cellDimensions = [0],
      samples = (\<lambda>k. real k), drawn = 0, warnings = []\<rparr> [1] [] = Undefined"
proof -
  let ?one = "\<lparr>getDimension = 1, project = (\<lambda>s::real. [s]), cellDimensions = [1],
      samples = (\<lambda>k. real k), drawn = 0, warnings = []\<rparr>"
  let ?zero = "\<lparr>getDimension = 1, project = (\<lambda>s::real. [s]), cellDimensions = [0],
      samples = (\<lambda>k. real k), drawn = 0, warnings = []\<rparr>"
  have a: "checkCellDimensions ?one = Returns ()"
    by (simp add: checkCellDimensions_cases)
  have f: "fdiv 4294967296 1 = Some 4294967296"
    by (simp only: fdiv_by_one to_double_examples)
  then have "coordinate [4294967296] (cellDimensions ?one) 0 = None"
    by (simp add: coordinate_def int_cast_def INT_MIN_def INT_MAX_def)
  then have b: "computeCoordinates ?one [4294967296] [] = Undefined"
    by (intro computeCoordinates_undefined [of 0]) simp_all
  have c: "checkCellDimensions ?zero = Returns ()"
    by (simp add: checkCellDimensions_cases)
  have "coordinate [1] (cellDimensions ?zero) 0 = None"
    by (rule coordinate_None_zero) simp
  then have d: "computeCoordinates ?zero [1] [] = Undefined"
    by (intro computeCoordinates_undefined [of 0]) simp_all
  from a b c d f show ?thesis by simp
qed

text \<open>
  Claim C9. \<open>computeCoordinates\<close> makes no check of the configuration and never
  throws. When the stored vector is shorter than the dimension, it reads beyond the end
  of the vector (undefined behaviour, no exception); when the dimension is 0 it returns
  the empty vector; when the stored vector is longer than the dimension it returns the
  floors of the double quotients by the first widths, under the provisos of C1. So the
  claim fails: after a call of \<open>setCellDimensions\<close> that threw \<open>CellDimensionMismatch\<close>,
  \<open>computeCoordinates\<close> returns coordinates.
\<close>

theorem computeCoordinates_unchecked:
  "computeCoordinates ev projection coord \<noteq> Throws e
   \<and> (length (cellDimensions ev) < getDimension ev \<longrightarrow>
        computeCoordinates ev projection coord = Undefined)
   \<and> (getDimension ev = 0 \<longrightarrow> computeCoordinates ev projection coord = Returns [])
   \<and> (getDimension ev < length (cellDimensions ev) \<and> getDimension ev \<le> length projection \<and>
        (\<forall>i<getDimension ev.
           fdiv (projection ! i) (cellDimensions ev ! i) = Some (q i) \<and>
           INT_MIN \<le> \<lfloor>q i\<rfloor> \<and> \<lfloor>q i\<rfloor> \<le> INT_MAX) \<longrightarrow>
        computeCoordinates ev projection coord =
          Returns (map (\<lambda>i. \<lfloor>q i\<rfloor>) [0..<getDimension ev]))"
proof -
  have a: "computeCoordinates ev projection coord \<noteq> Throws e"
    by (simp add: computeCoordinates_def coordinates_from_never_throws)
  have b: "computeCoordinates ev projection coord = Undefined"
    if "length (cellDimensions ev) < getDimension ev"
  proof -
    have "coordinate projection (cellDimensions ev) (length (cellDimensions ev)) = None"
      by (rule coordinate_None_short) simp
    with that show ?thesis
      by (intro computeCoordinates_undefined [of "length (cellDimensions ev)"])
  qed
  have c: "computeCoordinates ev projection coord = Returns []" if "getDimension ev = 0"
    using that by (simp add: computeCoordinates_def coordinates_from.simps resize_def)
  have d: "computeCoordinates ev projection coord =
          Returns (map (\<lambda>i. \<lfloor>q i\<rfloor>) [0..<getDimension ev])"
    if "getDimension ev < length (cellDimensions ev)" "getDimension ev \<le> length projection"
      "\<forall>i<getDimension ev.
           fdiv (projection ! i) (cellDimensions ev ! i) = Some (q i) \<and>
           INT_MIN \<le> \<lfloor>q i\<rfloor> \<and> \<lfloor>q i\<rfloor> \<le> INT_MAX"
    using that by (intro computeCoordinates_returns) simp_all
  from a b c d show ?thesis by blast
qed

theorem computeCoordinates_unchecked_witness:
  "computeCoordinates
     \<lparr>getDimension = 2, project = (\<lambda>s::real. [s, s]), cellDimensions = [],
      samples = (\<lambda>k. real k), drawn = 0, warnings = []\<rparr> [1, 2] [] = Undefined
   \<and> computeCoordinates
     \<lparr>getDimension = 0, project = (\<lambda>s::real. []), cellDimensions = [],
      samples = (\<lambda>k. real k), drawn = 0, warnings = []\<rparr> [] [7] = Returns []
   \<and> computeCoordinates
     \<lparr>getDimension = 1, project = (\<lambda>s::real. [s]),
      cellDimensions = [3602879701896397 / 2 ^ 55, 5],
      samples = (\<lambda>k. real k), drawn = 0, warnings = []\<rparr> [1] [] = Returns [10]"
proof -
  let ?short = "\<lparr>getDimension = 2, project = (\<lambda>s::real. [s, s]), cellDimensions = [],
      samples = (\<lambda>k. real k), drawn = 0, warnings = []\<rparr>"
  let ?none = "\<lparr>getDimension = 0, project = (\<lambda>s::real. []), cellDimensions = [],
      samples = (\<lambda>k. real k), drawn = 0, warnings = []\<rparr>"
  let ?long = "\<lparr>getDimension = 1, project = (\<lambda>s::real. [s]),
      cellDimensions = [3602879701896397 / 2 ^ 55, 5],
      samples = (\<lambda>k. real k), drawn = 0, warnings = []\<rparr>"
  have a: "computeCoordinates ?short [1, 2] [] = Undefined"
    using computeCoordinates_unchecked [of ?short "[1, 2]" "[]"] by simp
  have b: "computeCoordinates ?none [] [7] = Returns []"
    using computeCoordinates_unchecked [of ?none "[]" "[7]"] by simp
  have h: "getDimension ?long < length (cellDimensions ?long) \<and>
        getDimension ?long \<le> length [1::real] \<and>
        (\<forall>i<getDimension ?long.
           fdiv ([1] ! i) (cellDimensions ?long ! i) = Some ((\<lambda>i. 10) i) \<and>
           INT_MIN \<le> \<lfloor>(\<lambda>i. 10 :: real) i\<rfloor> \<and> \<lfloor>(\<lambda>i. 10 :: real) i\<rfloor> \<le> INT_MAX)"
    using fdiv_one_by_tenth by (simp add: INT_MIN_def INT_MAX_def)
  from computeCoordinates_unchecked [of ?long "[1]" "[]" _ "\<lambda>i. 10"] h
  have c: "computeCoordinates ?long [1] [] = Returns [10]"
    by simp
  from a b c show ?thesis by (intro conjI)
qed

theorem computeCoordinates_unchecked_counterexample:
  "fst (setCellDimensions [1, 1]
     \<lparr>getDimension = 1, project = (\<lambda>s::real. [s]), cellDimensions = [],
      samples = (\<lambda>k. real k), drawn = 0, warnings = []\<rparr>) = Throws CellDimensionMismatch
   \<and> computeCoordinates (snd (setCellDimensions [1, 1]
     \<lparr>getDimension = 1, project = (\<lambda>s::real. [s]), cellDimensions = [],
      samples = (\<lambda>k. real k), drawn = 0, warnings = []\<rparr>)) [1 / 2] [] = Returns [0]"
proof -
  let ?ev = "\<lparr>getDimension = 1, project = (\<lambda>s::real. [s]), cellDimensions = [],
      samples = (\<lambda>k. real k), drawn = 0, warnings = []\<rparr>"
  let ?ev' = "?ev\<lparr>cellDimensions := [1, 1]\<rparr>"
  have a: "setCellDimensions [1, 1] ?ev = (Throws CellDimensionMismatch, ?ev')"
    by (simp add: setCellDimensions_def Let_def checkCellDimensions_cases)
  have "computeCoordinates ?ev' [1 / 2] [] =
     Returns (map (\<lambda>i. \<lfloor>1 / 2 :: real\<rfloor>) [0..<getDimension ?ev'])"
    by (rule computeCoordinates_returns)
       (simp_all add: fdiv_by_one to_double_examples INT_MIN_def INT_MAX_def)
  then have b: "computeCoordinates ?ev' [1 / 2] [] = Returns [0]"
    by simp
  from a b show ?thesis by simp
qed

section \<open>Applying a projection matrix\<close>

lemma fold_add_upt:
  "fold (\<lambda>j pos. pos + f j) [0..<n] (a::real) = a + (\<Sum>j<n. f j)"
  by (induction n) simp_all

lemma project_row_sum:
  "project_row from vec = (\<Sum>j<length vec. from ! j * vec ! j)"
  by (simp add: project_row_def fold_add_upt)

lemma fold_update_upt_length:
  "length (fold (\<lambda>i t. t[i := g i]) [0..<m] to) = length to"
  by (induction m) simp_all

lemma fold_update_upt_nth:
  "m \<le> length to \<Longrightarrow>
   fold (\<lambda>i t. t[i := g i]) [0..<m] to ! k = (if k < m then g k else to ! k)"
proof (induction m)
  case 0
  then show ?case by simp
next
  case (Suc m)
  then show ?case
    by (simp add: fold_update_upt_length nth_list_update less_Suc_eq)
qed

lemma sum_linear_combination:
  "(\<Sum>j<n. (a * x j + b * y j) * (m j :: real)) =
   a * (\<Sum>j<n. x j * m j) + b * (\<Sum>j<n. y j * m j)"
  by (simp add: sum.distrib sum_distrib_left algebra_simps)

text \<open>
  Claim C4. For a matrix of \<open>M\<close> rows of length \<open>N\<close>, a source vector of length \<open>N\<close>
  and an output array of at least \<open>M\<close> entries, \<open>ProjectionMatrix_project\<close> writes
  the first \<open>M\<close> entries of the output array and no other: entry \<open>i\<close> is the dot
  product of the source vector and row \<open>i\<close>. The function has no other result and
  cannot fail, and every written entry is linear in the source vector (numbers are
  reals here: rounding is not modelled).
\<close>

theorem project_dot_products:
  assumes rows: "\<forall>vec\<in>set mat. length vec = N"
    and src: "length source = N"
    and buf: "length mat \<le> length to"
  shows "length (ProjectionMatrix_project mat source to) = length to
    \<and> (\<forall>i<length mat.
          ProjectionMatrix_project mat source to ! i = (\<Sum>j<N. source ! j * mat ! i ! j))
    \<and> (\<forall>i. length mat \<le> i \<longrightarrow> ProjectionMatrix_project mat source to ! i = to ! i)
    \<and> (\<forall>i<length mat. \<forall>x y a b. length x = N \<longrightarrow> length y = N \<longrightarrow>
          ProjectionMatrix_project mat (map2 (\<lambda>u v. a * u + b * v) x y) to ! i =
            a * ProjectionMatrix_project mat x to ! i
            + b * ProjectionMatrix_project mat y to ! i)"
proof -
  have len: "length (ProjectionMatrix_project mat s to) = length to" for s
    by (simp add: ProjectionMatrix_project_def fold_update_upt_length)
  have nth: "ProjectionMatrix_project mat s to ! i = (\<Sum>j<N. s ! j * mat ! i ! j)"
    if "i < length mat" for s i
  proof -
    from that rows have "length (mat ! i) = N" by simp
    with that buf show ?thesis
      by (simp add: ProjectionMatrix_project_def fold_update_upt_nth project_row_sum)
  qed
  have rest: "ProjectionMatrix_project mat source to ! i = to ! i" if "length mat \<le> i" for i
    using that buf by (simp add: ProjectionMatrix_project_def fold_update_upt_nth)
  have lin: "ProjectionMatrix_project mat (map2 (\<lambda>u v. a * u + b * v) x y) to ! i =
            a * ProjectionMatrix_project mat x to ! i
            + b * ProjectionMatrix_project mat y to ! i"
    if "i < length mat" "length x = N" "length y = N" for i x y a b
  proof -
    have "(\<Sum>j<N. map2 (\<lambda>u v. a * u + b * v) x y ! j * mat ! i ! j) =
          (\<Sum>j<N. (a * x ! j + b * y ! j) * mat ! i ! j)"
      using that by (intro sum.cong) simp_all
    then show ?thesis
      using that by (simp add: nth sum_linear_combination)
  qed
  from len nth rest lin show ?thesis by blast
qed

theorem project_dot_products_witness:
  "ProjectionMatrix_project [[1, 2], [3, 4]] [5, 6] [0, 0, 9] = [17, 39, 9]"
proof -
  let ?r = "ProjectionMatrix_project [[1, 2], [3, 4]] [5, 6] [0, 0, 9]"
  have a: "\<forall>vec\<in>set [[1, 2], [3, 4 :: real]]. length vec = 2" by simp
  have b: "length [5, 6 :: real] = 2" by simp
  have c: "length [[1, 2], [3, 4 :: real]] \<le> length [0, 0, 9 :: real]" by simp
  note t = project_dot_products [OF a b c]
  from t have l: "length ?r = 3" by simp
  from t have "\<forall>i<2. ?r ! i = (\<Sum>j<2. [5, 6] ! j * [[1, 2], [3, 4]] ! i ! j)" by simp
  then have "?r ! 0 = 17" "?r ! Suc 0 = 39"
    by (simp_all add: lessThan_Suc numeral_2_eq_2)
  moreover from t have "?r ! Suc (Suc 0) = 9" by (simp add: numeral_2_eq_2)
  ultimately have "\<forall>k<3. ?r ! k = [17, 39, 9] ! k"
    by (simp add: less_Suc_eq numeral_3_eq_3)
  with l show ?thesis
    by (intro nth_equalityI) simp_all
qed

section \<open>Degenerate scale factors\<close>

lemma scale_row_throws:
  "scale_row scale from i j projection = Throws e \<Longrightarrow>
   e = DegenerateScale \<and> j < from \<and> i < length scale \<and> \<bar>scale ! i\<bar> < epsilon"
proof (induction scale "from" i j projection rule: scale_row.induct)
  case (1 scale "from" i j projection)
  from "1.prems" show ?case
    by (subst (asm) scale_row.simps) (auto split: if_splits dest: "1.IH"[rotated -1])
qed

lemma scale_rows_throws:
  "scale_rows scale from to i projection = Throws e \<Longrightarrow>
   e = DegenerateScale \<and> 0 < from \<and> (\<exists>k<to. k < length scale \<and> \<bar>scale ! k\<bar> < epsilon)"
proof (induction scale "from" to i projection rule: scale_rows.induct)
  case (1 scale "from" to i projection)
  from "1.prems" have lt: "i < to"
    by (subst (asm) scale_rows.simps) (simp split: if_splits)
  show ?case
  proof (cases "scale_row scale from i 0 projection")
    case (Returns p)
    with "1.prems" lt have "scale_rows scale from to (Suc i) p = Throws e"
      by (subst (asm) scale_rows.simps) simp
    from "1.IH"[OF lt Returns this] show ?thesis .
  next
    case (Throws e')
    with "1.prems" lt have "e' = e"
      by (subst (asm) scale_rows.simps) simp
    with Throws scale_row_throws[of scale "from" i 0 projection e] lt show ?thesis
      by auto
  next
    case Undefined
    with "1.prems" lt show ?thesis
      by (subst (asm) scale_rows.simps) simp
  qed
qed

lemma ComputeRandom_throws_only_if:
  "ComputeRandom draws from to scale = Throws e \<Longrightarrow>
   e = DegenerateScale \<and> length scale = from \<and> scale \<noteq> [] \<and>
   (\<exists>k<to. k < length scale \<and> \<bar>scale ! k\<bar> < epsilon)"
  by (auto simp add: ComputeRandom_def Let_def split: if_splits dest: scale_rows_throws)

lemma scale_row_outcome:
  "i < length scale \<Longrightarrow>
   (\<exists>p. scale_row scale from i j projection = Returns p) \<or>
   (j < from \<and> \<bar>scale ! i\<bar> < epsilon \<and> scale_row scale from i j projection = Throws DegenerateScale)"
proof (induction scale "from" i j projection rule: scale_row.induct)
  case (1 scale "from" i j projection)
  show ?case
  proof (cases "j < from")
    case False
    then show ?thesis by (subst scale_row.simps) simp
  next
    case True
    show ?thesis
    proof (cases "\<bar>scale ! i\<bar> < epsilon")
      case True
      with \<open>j < from\<close> "1.prems" show ?thesis
        by (subst (1 2) scale_row.simps) simp
    next
      case False
      from "1.prems" have "\<not> \<not> i < length scale" by simp
      from "1.IH" [OF True this False "1.prems"] False True "1.prems" show ?thesis
        by (subst (1 2) scale_row.simps) simp
    qed
  qed
qed

lemma scale_row_throws_if:
  "i < length scale \<Longrightarrow> 0 < from \<Longrightarrow> \<bar>scale ! i\<bar> < epsilon \<Longrightarrow>
   scale_row scale from i 0 projection = Throws DegenerateScale"
  by (subst scale_row.simps) simp

lemma scale_rows_throws_if:
  "i \<le> k \<Longrightarrow> k < to \<Longrightarrow> k < length scale \<Longrightarrow> 0 < from \<Longrightarrow> \<bar>scale ! k\<bar> < epsilon \<Longrightarrow>
   scale_rows scale from to i projection = Throws DegenerateScale"
proof (induction scale "from" to i projection rule: scale_rows.induct)
  case (1 scale "from" to i projection)
  from "1.prems" have lt: "i < to" and il: "i < length scale" by simp_all
  show ?case
  proof (cases "\<bar>scale ! i\<bar> < epsilon")
    case True
    with il "1.prems" have "scale_row scale from i 0 projection = Throws DegenerateScale"
      by (intro scale_row_throws_if) simp_all
    with lt show ?thesis by (subst scale_rows.simps) simp
  next
    case False
    with scale_row_outcome [OF il, of "from" 0 projection]
    obtain p where p: "scale_row scale from i 0 projection = Returns p" by blast
    from False "1.prems" have "i \<noteq> k" by auto
    with "1.prems" have "Suc i \<le> k" by simp
    from "1.IH" [OF lt p this "1.prems"(2-5)] lt p show ?thesis
      by (subst scale_rows.simps) simp
  qed
qed

lemma ComputeRandom_throws_if:
  "length scale = from \<Longrightarrow> k < to \<Longrightarrow> k < from \<Longrightarrow> \<bar>scale ! k\<bar> < epsilon \<Longrightarrow>
   ComputeRandom draws from to scale = Throws DegenerateScale"
  by (simp add: ComputeRandom_def Let_def scale_rows_throws_if [of 0 k])

text \<open>
  Claim C3. \<open>ComputeRandom\<close> is to throw \<open>DegenerateScale\<close> exactly when the scale
  vector is not empty, has the length \<open>from\<close> and holds an entry of magnitude below
  \<open>epsilon\<close>. The code throws only in that case (lemma \<open>ComputeRandom_throws_only_if\<close>),
  and it throws when such an entry stands among the first \<open>to\<close> entries (lemma
  \<open>ComputeRandom_throws_if\<close>), but it does not throw in every case: the entry it tests
  is \<^verbatim>\<open>scale[i]\<close> with \<open>i\<close> the index of a row, so the entries from index \<open>to\<close> on
  are never looked at. With
  \<open>from = 2\<close>, \<open>to = 1\<close> and the scale vector \<open>[1, 1e-20]\<close> the matrix is returned,
  whatever the random numbers are.
\<close>

theorem ComputeRandom_unexamined_scale_entry:
  "\<bar>1 / 10 ^ 20\<bar> < epsilon
   \<and> (\<forall>draws. ComputeRandom draws 2 1 [1, 1 / 10 ^ 20] = Returns [Values [draws 0, draws 1]])"
proof -
  have a: "\<bar>1 / 10 ^ 20\<bar> < epsilon"
    by (simp add: epsilon_def)
  have b: "ComputeRandom draws 2 1 [1, 1 / 10 ^ 20] = Returns [Values [draws 0, draws 1]]"
    for draws
  proof -
    define s where "s = [1, 1 / 10 ^ 20 :: real]"
    define m where "m = [Values [draws 0, draws 1]]"
    have rm: "random_matrix draws 2 1 = m"
      by (simp add: random_matrix_def upt_rec m_def)
    have o: "orthonormalize_rows 1 1 m = m"
      by (subst orthonormalize_rows.simps) simp
    have e: "\<not> \<bar>1 :: real\<bar> < epsilon"
      by (simp add: epsilon_def)
    have r: "scale_row s 2 0 0 m = Returns m"
      using e by (simp add: scale_row.simps divide_entry_def s_def m_def)
    have ss: "scale_rows s 2 1 0 m = Returns m"
      by (simp add: scale_rows.simps r)
    have ls: "length s = 2"
      by (simp add: s_def)
    have "ComputeRandom draws 2 1 s = Returns m"
      unfolding ComputeRandom_def Let_def rm o using ss ls by simp
    then show ?thesis
      by (simp only: s_def m_def)
  qed
  from a b show ?thesis by blast
qed

section \<open>Inference of the cell dimensions\<close>

lemma update_axis:
  "m < d \<Longrightarrow>
   (if c then (map f [0..<d])[m := x] else map f [0..<d]) =
   map (\<lambda>j. if j = m \<and> c then x else f j) [0..<d]"
  by (intro nth_equalityI) (auto simp add: nth_list_update)

lemma track_extents_upto:
  assumes "length low = d" "length high = d" "m \<le> d"
  shows "fold (track_axis vals) [0..<m] (low, high) =
     (map (\<lambda>j. if j < m \<and> low_above (low ! j) (vals ! j) then Seen (vals ! j) else low ! j)
          [0..<d],
      map (\<lambda>j. if j < m \<and> high_below (high ! j) (vals ! j) then Seen (vals ! j) else high ! j)
          [0..<d])"
  using assms(3)
proof (induction m)
  case 0
  from assms(1,2) map_nth [of low] map_nth [of high] show ?case by simp
next
  case (Suc m)
  from Suc have m: "m < d" by simp
  with Suc have ih: "fold (track_axis vals) [0..<m] (low, high) =
     (map (\<lambda>j. if j < m \<and> low_above (low ! j) (vals ! j) then Seen (vals ! j) else low ! j)
          [0..<d],
      map (\<lambda>j. if j < m \<and> high_below (high ! j) (vals ! j) then Seen (vals ! j) else high ! j)
          [0..<d])"
    by simp
  have "fold (track_axis vals) [0..<Suc m] (low, high) =
        track_axis vals m (fold (track_axis vals) [0..<m] (low, high))"
    by simp
  also have "\<dots> =
     (map (\<lambda>j. if j = m \<and> low_above (low ! m) (vals ! m) then Seen (vals ! m)
               else if j < m \<and> low_above (low ! j) (vals ! j) then Seen (vals ! j) else low ! j)
          [0..<d],
      map (\<lambda>j. if j = m \<and> high_below (high ! m) (vals ! m) then Seen (vals ! m)
               else if j < m \<and> high_below (high ! j) (vals ! j) then Seen (vals ! j) else high ! j)
          [0..<d])"
    unfolding ih using m by (simp add: track_axis_def Let_def update_axis)
  also have "\<dots> =
     (map (\<lambda>j. if j < Suc m \<and> low_above (low ! j) (vals ! j) then Seen (vals ! j) else low ! j)
          [0..<d],
      map (\<lambda>j. if j < Suc m \<and> high_below (high ! j) (vals ! j) then Seen (vals ! j) else high ! j)
          [0..<d])"
    by (auto simp add: less_Suc_eq)
  finally show ?case .
qed

lemma track_extents_axes:
  assumes "length low = d" "length high = d"
  shows "track_extents d vals (low, high) =
     (map (\<lambda>j. if low_above (low ! j) (vals ! j) then Seen (vals ! j) else low ! j) [0..<d],
      map (\<lambda>j. if high_below (high ! j) (vals ! j) then Seen (vals ! j) else high ! j) [0..<d])"
  using track_extents_upto [OF assms, of d vals] by (simp add: track_extents_def cong: map_cong)


lemma sample_extents_axes:
  "length (fst lh) = getDimension ev \<Longrightarrow> length (snd lh) = getDimension ev \<Longrightarrow>
   snd (sample_extents n i ev lh) =
     (map (\<lambda>j. fold (\<lambda>a l. if low_above l (project ev (samples ev a) ! j)
                          then Seen (project ev (samples ev a) ! j) else l)
                   [drawn ev..<drawn ev + (n - i)] (fst lh ! j)) [0..<getDimension ev],
      map (\<lambda>j. fold (\<lambda>a h. if high_below h (project ev (samples ev a) ! j)
                          then Seen (project ev (samples ev a) ! j) else h)
                   [drawn ev..<drawn ev + (n - i)] (snd lh ! j)) [0..<getDimension ev])"
proof (induction n i ev lh rule: sample_extents.induct)
  case (1 n i ev lh)
  let ?d = "getDimension ev"
  let ?ev' = "ev\<lparr>drawn := Suc (drawn ev)\<rparr>"
  let ?vals = "project ev (samples ev (drawn ev))"
  let ?lh' = "track_extents ?d ?vals lh"
  show ?case
  proof (cases "i < n")
    case True
    have lh': "?lh' =
       (map (\<lambda>j. if low_above (fst lh ! j) (?vals ! j) then Seen (?vals ! j) else fst lh ! j) [0..<?d],
        map (\<lambda>j. if high_below (snd lh ! j) (?vals ! j) then Seen (?vals ! j) else snd lh ! j) [0..<?d])"
      using track_extents_axes [OF "1.prems", of ?vals] by simp
    have step: "sample_extents n i ev lh = sample_extents n (Suc i) ?ev' ?lh'"
      using True by (subst sample_extents.simps) (simp add: sampleUniform_def)
    have up: "[drawn ev..<drawn ev + (n - i)] = drawn ev # [Suc (drawn ev)..<Suc (drawn ev) + (n - Suc i)]"
      using True by (simp add: upt_conv_Cons Suc_diff_Suc)
    have eq: "(samples ev (drawn ev), ?ev') = sampleUniform ev"
      by (simp add: sampleUniform_def)
    have r: "project ?ev' = project ev" "samples ?ev' = samples ev"
      "getDimension ?ev' = ?d" "drawn ?ev' = Suc (drawn ev)"
      by simp_all
    have l: "length (fst ?lh') = ?d" "length (snd ?lh') = ?d"
      by (simp_all add: lh')
    note ih = "1.IH"[OF True refl eq refl, unfolded r, OF l]
    from ih have "snd (sample_extents n i ev lh) =
     (map (\<lambda>j. fold (\<lambda>a l. if low_above l (project ev (samples ev a) ! j)
                          then Seen (project ev (samples ev a) ! j) else l)
                   [Suc (drawn ev)..<Suc (drawn ev) + (n - Suc i)] (fst ?lh' ! j)) [0..<?d],
      map (\<lambda>j. fold (\<lambda>a h. if high_below h (project ev (samples ev a) ! j)
                          then Seen (project ev (samples ev a) ! j) else h)
                   [Suc (drawn ev)..<Suc (drawn ev) + (n - Suc i)] (snd ?lh' ! j)) [0..<?d])"
      unfolding step .
    also have "\<dots> =
     (map (\<lambda>j. fold (\<lambda>a l. if low_above l (project ev (samples ev a) ! j)
                          then Seen (project ev (samples ev a) ! j) else l)
                   (drawn ev # [Suc (drawn ev)..<Suc (drawn ev) + (n - Suc i)]) (fst lh ! j)) [0..<?d],
      map (\<lambda>j. fold (\<lambda>a h. if high_below h (project ev (samples ev a) ! j)
                          then Seen (project ev (samples ev a) ! j) else h)
                   (drawn ev # [Suc (drawn ev)..<Suc (drawn ev) + (n - Suc i)]) (snd lh ! j)) [0..<?d])"
      unfolding lh' by (simp only: fold_Cons o_apply fst_conv snd_conv) (simp cong: map_cong)
    finally show ?thesis
      unfolding up .
  next
    case False
    from "1.prems" map_nth [of "fst lh"] map_nth [of "snd lh"]
    have "(map (\<lambda>j. fst lh ! j) [0..<?d], map (\<lambda>j. snd lh ! j) [0..<?d]) = lh"
      by (simp add: prod_eq_iff)
    with False show ?thesis by (subst sample_extents.simps) simp
  qed
qed

lemma running_minimum:
  "fold (\<lambda>a l. if low_above l (f a) then Seen (f a) else l) [c..<c + n] Unset =
     (if n = 0 then Unset else Seen (Min (f ` {c..<c + n})))"
proof (induction n)
  case 0
  show ?case by simp
next
  case (Suc n)
  show ?case
  proof (cases "n = 0")
    case True
    then show ?thesis by (simp add: low_above_def)
  next
    case False
    define M where "M = Min (f ` {c..<c + n})"
    have "{c..<c + Suc n} = insert (c + n) {c..<c + n}"
      by auto
    then have "Min (f ` {c..<c + Suc n}) = Min (insert (f (c + n)) (f ` {c..<c + n}))"
      by simp
    also have "\<dots> = min (f (c + n)) M"
      unfolding M_def using False by (intro Min_insert) simp_all
    finally have m: "Min (f ` {c..<c + Suc n}) = min (f (c + n)) M" .
    from Suc False have "fold (\<lambda>a l. if low_above l (f a) then Seen (f a) else l) [c..<c + n] Unset
        = Seen M"
      by (simp add: M_def)
    then show ?thesis
      unfolding m by (auto simp add: low_above_def min_def)
  qed
qed

lemma running_maximum:
  "fold (\<lambda>a h. if high_below h (f a) then Seen (f a) else h) [c..<c + n] Unset =
     (if n = 0 then Unset else Seen (Max (f ` {c..<c + n})))"
proof (induction n)
  case 0
  show ?case by simp
next
  case (Suc n)
  show ?case
  proof (cases "n = 0")
    case True
    then show ?thesis by (simp add: high_below_def)
  next
    case False
    define M where "M = Max (f ` {c..<c + n})"
    have "{c..<c + Suc n} = insert (c + n) {c..<c + n}"
      by auto
    then have "Max (f ` {c..<c + Suc n}) = Max (insert (f (c + n)) (f ` {c..<c + n}))"
      by simp
    also have "\<dots> = max (f (c + n)) M"
      unfolding M_def using False by (intro Max_insert) simp_all
    finally have m: "Max (f ` {c..<c + Suc n}) = max (f (c + n)) M" .
    from Suc False have "fold (\<lambda>a h. if high_below h (f a) then Seen (f a) else h) [c..<c + n] Unset
        = Seen M"
      by (simp add: M_def)
    then show ?thesis
      unfolding m by (auto simp add: high_below_def max_def)
  qed
qed


lemma update_map_upt:
  "m < d \<Longrightarrow> (map f [0..<d])[m := x] = map (\<lambda>j. if j = m then x else f j) [0..<d]"
  by (intro nth_equalityI) (auto simp add: nth_list_update)

lemma store_widths_upto:
  "m \<le> length (cellDimensions ev) \<Longrightarrow>
   cellDimensions (fold (store_width sp low high) [0..<m] ev) =
     map (\<lambda>j. if j < m
               then (if below_epsilon (inferred_width (high ! j) (low ! j) sp) then 1
                     else the (inferred_width (high ! j) (low ! j) sp))
               else cellDimensions ev ! j) [0..<length (cellDimensions ev)]
   \<and> warnings (fold (store_width sp low high) [0..<m] ev) =
     warnings ev @ filter (\<lambda>j. below_epsilon (inferred_width (high ! j) (low ! j) sp)) [0..<m]"
proof (induction m)
  case 0
  show ?case using map_nth [of "cellDimensions ev"] by simp
next
  case (Suc m)
  let ?ev = "fold (store_width sp low high) [0..<m] ev"
  from Suc have m: "m < length (cellDimensions ev)" by simp
  with Suc have ih: "cellDimensions ?ev =
     map (\<lambda>j. if j < m
               then (if below_epsilon (inferred_width (high ! j) (low ! j) sp) then 1
                     else the (inferred_width (high ! j) (low ! j) sp))
               else cellDimensions ev ! j) [0..<length (cellDimensions ev)]"
    and ihw: "warnings ?ev =
     warnings ev @ filter (\<lambda>j. below_epsilon (inferred_width (high ! j) (low ! j) sp)) [0..<m]"
    by simp_all
  have f: "fold (store_width sp low high) [0..<Suc m] ev = store_width sp low high m ?ev"
    by simp
  show ?case
    unfolding f using m
    by (auto simp add: store_width_def Let_def ih ihw update_map_upt less_Suc_eq)
qed

lemma inferCellDimensions_result:
  assumes d: "0 < getDimension ev" and N: "0 < N"
  shows "cellDimensions (inferCellDimensions N sp ev) =
     map (\<lambda>j. if (Max ((\<lambda>a. project ev (samples ev a) ! j) ` {drawn ev..<drawn ev + N})
                  - Min ((\<lambda>a. project ev (samples ev a) ! j) ` {drawn ev..<drawn ev + N})) / sp
                 < epsilon
               then 1
               else (Max ((\<lambda>a. project ev (samples ev a) ! j) ` {drawn ev..<drawn ev + N})
                  - Min ((\<lambda>a. project ev (samples ev a) ! j) ` {drawn ev..<drawn ev + N})) / sp)
         [0..<getDimension ev]"
    and "warnings (inferCellDimensions N sp ev) =
     warnings ev @
     filter (\<lambda>j. (Max ((\<lambda>a. project ev (samples ev a) ! j) ` {drawn ev..<drawn ev + N})
                  - Min ((\<lambda>a. project ev (samples ev a) ! j) ` {drawn ev..<drawn ev + N})) / sp
                 < epsilon)
         [0..<getDimension ev]"
proof -
  let ?d = "getDimension ev"
  let ?S = "sample_extents N 0 ev (replicate ?d Unset, replicate ?d Unset)"
  let ?V = "\<lambda>j. (\<lambda>a. project ev (samples ev a) ! j) ` {drawn ev..<drawn ev + N}"
  define low where "low = map (\<lambda>j. Seen (Min (?V j))) [0..<?d]"
  define high where "high = map (\<lambda>j. Seen (Max (?V j))) [0..<?d]"
  define ev2 where
    "ev2 = ev\<lparr>drawn := drawn ev + N, cellDimensions := resize ?d 0 (cellDimensions ev)\<rparr>"
  have ev1: "fst ?S = ev\<lparr>drawn := drawn ev + N\<rparr>"
    by (simp add: sample_extents_evaluator)
  have "snd ?S = (low, high)"
    using N sample_extents_axes [of "(replicate ?d Unset, replicate ?d Unset)" ev N 0]
    by (simp add: running_minimum running_maximum low_def high_def cong: map_cong)
  with ev1 have S: "?S = (ev\<lparr>drawn := drawn ev + N\<rparr>, low, high)"
    by (simp add: prod_eq_iff)
  have inf: "inferCellDimensions N sp ev = fold (store_width sp low high) [0..<?d] ev2"
    using d unfolding inferCellDimensions_def Let_def S ev2_def by simp
  have len: "length (cellDimensions ev2) = ?d"
    by (simp add: ev2_def length_resize)
  have w: "inferred_width (high ! j) (low ! j) sp = Some ((Max (?V j) - Min (?V j)) / sp)"
    if "j < ?d" for j
    using that by (simp add: low_def high_def inferred_width_def)
  note st = store_widths_upto [of ?d ev2 sp low high, unfolded len, OF le_refl]
  from st show "cellDimensions (inferCellDimensions N sp ev) =
     map (\<lambda>j. if (Max (?V j) - Min (?V j)) / sp < epsilon then 1
               else (Max (?V j) - Min (?V j)) / sp) [0..<?d]"
    unfolding inf by (simp add: w below_epsilon_def cong: map_cong)
  have "filter (\<lambda>j. below_epsilon (inferred_width (high ! j) (low ! j) sp)) [0..<?d] =
        filter (\<lambda>j. (Max (?V j) - Min (?V j)) / sp < epsilon) [0..<?d]"
    by (intro filter_cong) (simp_all add: w below_epsilon_def)
  with st show "warnings (inferCellDimensions N sp ev) =
     warnings ev @ filter (\<lambda>j. (Max (?V j) - Min (?V j)) / sp < epsilon) [0..<?d]"
    unfolding inf by (simp add: ev2_def)
qed


lemma count_list_filter_upt:
  "count_list (filter P [0..<d]) j = (if j < d \<and> P j then 1 else 0)"
  by (induction d) auto

lemma epsilon_positive: "0 < epsilon"
  by (simp add: epsilon_def)

text \<open>
  Claim C5. With a positive dimension, \<open>inferCellDimensions\<close> draws exactly
  \<open>extents_samples\<close> states from the sampler (the counter \<open>drawn\<close> advances by that
  number), projects each of them, and stores for every axis \<open>j\<close> the width
  \<open>(max - min) / splits\<close>, where \<open>max\<close> and \<open>min\<close> are the largest and the smallest
  value the drawn states project to in axis \<open>j\<close>; a width below \<open>epsilon\<close> is then
  replaced by 1 (claim C6). With dimension 0 it changes nothing. The two constants are
  taken positive, and the strategy fills every axis of a projection.
\<close>

theorem inferCellDimensions_extents:
  "(getDimension ev = 0 \<longrightarrow> inferCellDimensions N sp ev = ev)
   \<and> (0 < getDimension ev \<and> 0 < N \<and> 0 < sp \<and>
       (\<forall>a. drawn ev \<le> a \<and> a < drawn ev + N \<longrightarrow>
            length (project ev (samples ev a)) = getDimension ev) \<longrightarrow>
       drawn (inferCellDimensions N sp ev) = drawn ev + N
       \<and> length (cellDimensions (inferCellDimensions N sp ev)) = getDimension ev
       \<and> (\<forall>j<getDimension ev.
            cellDimensions (inferCellDimensions N sp ev) ! j =
             (let values = (\<lambda>a. project ev (samples ev a) ! j) ` {drawn ev..<drawn ev + N};
                  width = (Max values - Min values) / sp
              in if width < epsilon then 1 else width)))"
proof -
  have a: "inferCellDimensions N sp ev = ev" if "getDimension ev = 0"
    using that by (rule inferCellDimensions_zero)
  have b: "drawn (inferCellDimensions N sp ev) = drawn ev + N" if "0 < getDimension ev"
    using that by (rule inferCellDimensions_drawn)
  have c: "length (cellDimensions (inferCellDimensions N sp ev)) = getDimension ev"
    if "0 < getDimension ev"
    using that by (rule inferCellDimensions_length)
  have d: "cellDimensions (inferCellDimensions N sp ev) ! j =
             (let values = (\<lambda>a. project ev (samples ev a) ! j) ` {drawn ev..<drawn ev + N};
                  width = (Max values - Min values) / sp
              in if width < epsilon then 1 else width)"
    if "0 < getDimension ev" "0 < N" "j < getDimension ev" for j
    using that by (simp add: inferCellDimensions_result Let_def)
  from a b c d show ?thesis by blast
qed


theorem inferCellDimensions_extents_witness:
  "drawn (inferCellDimensions 3 4
     \<lparr>getDimension = 2, project = (\<lambda>s::real. [s, 3]), cellDimensions = [],
      samples = (\<lambda>k. real k), drawn = 0, warnings = []\<rparr>) = 3
   \<and> cellDimensions (inferCellDimensions 3 4
     \<lparr>getDimension = 2, project = (\<lambda>s::real. [s, 3]), cellDimensions = [],
      samples = (\<lambda>k. real k), drawn = 0, warnings = []\<rparr>) ! 0 = 1 / 2
   \<and> inferCellDimensions 3 4
     \<lparr>getDimension = 0, project = (\<lambda>s::real. []), cellDimensions = [],
      samples = (\<lambda>k. real k), drawn = 0, warnings = []\<rparr> =
     \<lparr>getDimension = 0, project = (\<lambda>s::real. []), cellDimensions = [],
      samples = (\<lambda>k. real k), drawn = 0, warnings = []\<rparr>"
proof -
  let ?ev = "\<lparr>getDimension = 2, project = (\<lambda>s::real. [s, 3]), cellDimensions = [],
      samples = (\<lambda>k. real k), drawn = 0, warnings = []\<rparr>"
  let ?zero = "\<lparr>getDimension = 0, project = (\<lambda>s::real. []), cellDimensions = [],
      samples = (\<lambda>k. real k), drawn = 0, warnings = []\<rparr>"
  have set: "{0..<3::nat} = {0, 1, 2}" by auto
  have e: "\<not> (1 / 2 :: real) < epsilon" by (simp add: epsilon_def)
  note t = inferCellDimensions_extents [of ?ev 3 4]
  from t have a: "drawn (inferCellDimensions 3 4 ?ev) = 3" by simp
  from t have "\<forall>j<2. cellDimensions (inferCellDimensions 3 4 ?ev) ! j =
             (let values = (\<lambda>a. project ?ev (samples ?ev a) ! j) ` {0..<3};
                  width = (Max values - Min values) / 4
              in if width < epsilon then 1 else width)"
    by simp
  then have "cellDimensions (inferCellDimensions 3 4 ?ev) ! 0 =
             (let values = (\<lambda>a. project ?ev (samples ?ev a) ! 0) ` {0..<3};
                  width = (Max values - Min values) / 4
              in if width < epsilon then 1 else width)"
    by simp
  then have b: "cellDimensions (inferCellDimensions 3 4 ?ev) ! 0 = 1 / 2"
    using e by (simp add: set Let_def)
  have c: "inferCellDimensions 3 4 ?zero = ?zero"
    by (rule inferCellDimensions_extents [of ?zero 3 4, THEN conjunct1, THEN mp]) simp
  from a b c show ?thesis by (intro conjI)
qed

text \<open>
  Claim C6. In \<open>inferCellDimensions\<close> the axes whose width \<open>(max - min) / splits\<close> is
  below \<open>epsilon\<close> are exactly the axes a warning is written for, one warning each, in
  the order of the axes; such an axis gets the cell width 1, every other axis keeps its
  width and gets no warning. An axis in which all drawn states project to the same
  value is such an axis. The function has no failing branch: its result is an evaluator.
\<close>

theorem inferCellDimensions_degenerate_axes:
  "0 < getDimension ev \<and> 0 < N \<and> 0 < sp \<and>
   (\<forall>a. drawn ev \<le> a \<and> a < drawn ev + N \<longrightarrow>
        length (project ev (samples ev a)) = getDimension ev) \<longrightarrow>
   warnings (inferCellDimensions N sp ev) =
     warnings ev @
     filter (\<lambda>j. (Max ((\<lambda>a. project ev (samples ev a) ! j) ` {drawn ev..<drawn ev + N})
                  - Min ((\<lambda>a. project ev (samples ev a) ! j) ` {drawn ev..<drawn ev + N})) / sp
                 < epsilon) [0..<getDimension ev]
   \<and> (\<forall>j<getDimension ev.
        let values = (\<lambda>a. project ev (samples ev a) ! j) ` {drawn ev..<drawn ev + N};
            width = (Max values - Min values) / sp;
            warned = count_list (drop (length (warnings ev))
                                  (warnings (inferCellDimensions N sp ev))) j
        in (width < epsilon \<longrightarrow>
              cellDimensions (inferCellDimensions N sp ev) ! j = 1 \<and> warned = 1)
         \<and> (\<not> width < epsilon \<longrightarrow>
              cellDimensions (inferCellDimensions N sp ev) ! j = width \<and> warned = 0)
         \<and> ((\<forall>a b. drawn ev \<le> a \<and> a < drawn ev + N \<and> drawn ev \<le> b \<and> b < drawn ev + N \<longrightarrow>
                project ev (samples ev a) ! j = project ev (samples ev b) ! j) \<longrightarrow>
              cellDimensions (inferCellDimensions N sp ev) ! j = 1 \<and> warned = 1))"
proof (intro impI, elim conjE)
  assume d: "0 < getDimension ev" and N: "0 < N" and sp: "0 < sp"
  let ?V = "\<lambda>j. (\<lambda>a. project ev (samples ev a) ! j) ` {drawn ev..<drawn ev + N}"
  let ?w = "\<lambda>j. (Max (?V j) - Min (?V j)) / sp"
  let ?new = "inferCellDimensions N sp ev"
  let ?warned = "\<lambda>j. count_list (drop (length (warnings ev)) (warnings ?new)) j"
  have w: "warnings ?new = warnings ev @ filter (\<lambda>j. ?w j < epsilon) [0..<getDimension ev]"
    using d N by (rule inferCellDimensions_result)
  have c: "cellDimensions ?new ! j = (if ?w j < epsilon then 1 else ?w j)"
    if "j < getDimension ev" for j
    using that d N by (simp add: inferCellDimensions_result)
  have n: "?warned j = (if ?w j < epsilon then 1 else 0)"
    if "j < getDimension ev" for j
    using that by (simp add: w count_list_filter_upt)
  have z: "?w j < epsilon"
    if same: "\<forall>a b. drawn ev \<le> a \<and> a < drawn ev + N \<and> drawn ev \<le> b \<and> b < drawn ev + N \<longrightarrow>
                project ev (samples ev a) ! j = project ev (samples ev b) ! j" for j
  proof -
    have "?V j = {project ev (samples ev (drawn ev)) ! j}"
    proof (intro equalityI subsetI)
      fix x assume "x \<in> ?V j"
      then obtain a where a: "drawn ev \<le> a" "a < drawn ev + N"
        and x: "x = project ev (samples ev a) ! j"
        by auto
      from a N have "drawn ev \<le> a \<and> a < drawn ev + N \<and> drawn ev \<le> drawn ev \<and> drawn ev < drawn ev + N"
        by simp
      with same have "project ev (samples ev a) ! j = project ev (samples ev (drawn ev)) ! j"
        by blast
      with x have "x = project ev (samples ev (drawn ev)) ! j"
        by (simp only:)
      then show "x \<in> {project ev (samples ev (drawn ev)) ! j}" by simp
    next
      fix x assume "x \<in> {project ev (samples ev (drawn ev)) ! j}"
      with N show "x \<in> ?V j" by simp
    qed
    then show ?thesis
      by (simp add: epsilon_positive)
  qed
  have per: "(?w j < epsilon \<longrightarrow> cellDimensions ?new ! j = 1 \<and> ?warned j = 1)
         \<and> (\<not> ?w j < epsilon \<longrightarrow> cellDimensions ?new ! j = ?w j \<and> ?warned j = 0)
         \<and> ((\<forall>a b. drawn ev \<le> a \<and> a < drawn ev + N \<and> drawn ev \<le> b \<and> b < drawn ev + N \<longrightarrow>
                project ev (samples ev a) ! j = project ev (samples ev b) ! j) \<longrightarrow>
              cellDimensions ?new ! j = 1 \<and> ?warned j = 1)"
    if j: "j < getDimension ev" for j
  proof (intro conjI impI)
    assume "?w j < epsilon"
    then show "cellDimensions ?new ! j = 1" "?warned j = 1"
      by (simp_all only: c [OF j] n [OF j] if_True)
  next
    assume "\<not> ?w j < epsilon"
    then show "cellDimensions ?new ! j = ?w j" "?warned j = 0"
      by (simp_all only: c [OF j] n [OF j] if_False)
  next
    assume "\<forall>a b. drawn ev \<le> a \<and> a < drawn ev + N \<and> drawn ev \<le> b \<and> b < drawn ev + N \<longrightarrow>
                project ev (samples ev a) ! j = project ev (samples ev b) ! j"
    then have "?w j < epsilon" by (rule z)
    then show "cellDimensions ?new ! j = 1" "?warned j = 1"
      by (simp_all only: c [OF j] n [OF j] if_True)
  qed
  show "warnings ?new = warnings ev @ filter (\<lambda>j. ?w j < epsilon) [0..<getDimension ev]
    \<and> (\<forall>j<getDimension ev.
        let values = ?V j;
            width = (Max values - Min values) / sp;
            warned = ?warned j
        in (width < epsilon \<longrightarrow> cellDimensions ?new ! j = 1 \<and> warned = 1)
         \<and> (\<not> width < epsilon \<longrightarrow> cellDimensions ?new ! j = width \<and> warned = 0)
         \<and> ((\<forall>a b. drawn ev \<le> a \<and> a < drawn ev + N \<and> drawn ev \<le> b \<and> b < drawn ev + N \<longrightarrow>
                project ev (samples ev a) ! j = project ev (samples ev b) ! j) \<longrightarrow>
              cellDimensions ?new ! j = 1 \<and> warned = 1))"
    unfolding Let_def
  proof (intro conjI allI)
    show "warnings ?new = warnings ev @ filter (\<lambda>j. ?w j < epsilon) [0..<getDimension ev]"
      by (rule w)
  next
    fix j
    show "j < getDimension ev \<longrightarrow>
         (?w j < epsilon \<longrightarrow> cellDimensions ?new ! j = 1 \<and> ?warned j = 1)
         \<and> (\<not> ?w j < epsilon \<longrightarrow> cellDimensions ?new ! j = ?w j \<and> ?warned j = 0)
         \<and> ((\<forall>a b. drawn ev \<le> a \<and> a < drawn ev + N \<and> drawn ev \<le> b \<and> b < drawn ev + N \<longrightarrow>
                project ev (samples ev a) ! j = project ev (samples ev b) ! j) \<longrightarrow>
              cellDimensions ?new ! j = 1 \<and> ?warned j = 1)"
      using per [of j] by (intro impI)
  qed
qed


theorem inferCellDimensions_degenerate_axes_witness:
  "warnings (inferCellDimensions 3 4
     \<lparr>getDimension = 2, project = (\<lambda>s::real. [s, 3]), cellDimensions = [],
      samples = (\<lambda>k. real k), drawn = 0, warnings = []\<rparr>) = [1]
   \<and> cellDimensions (inferCellDimensions 3 4
     \<lparr>getDimension = 2, project = (\<lambda>s::real. [s, 3]), cellDimensions = [],
      samples = (\<lambda>k. real k), drawn = 0, warnings = []\<rparr>) ! 1 = 1"
proof -
  let ?ev = "\<lparr>getDimension = 2, project = (\<lambda>s::real. [s, 3]), cellDimensions = [],
      samples = (\<lambda>k. real k), drawn = 0, warnings = []\<rparr>"
  have set: "{0..<3::nat} = {0, 1, 2}" by auto
  have e: "\<not> (1 / 2 :: real) < epsilon" "(0::real) < epsilon" by (simp_all add: epsilon_def)
  have u: "[0..<2] = [0, Suc 0]" by (simp add: upt_rec)
  have h: "0 < getDimension ?ev \<and> 0 < (3::nat) \<and> 0 < (4::real) \<and>
   (\<forall>a. drawn ?ev \<le> a \<and> a < drawn ?ev + 3 \<longrightarrow>
        length (project ?ev (samples ?ev a)) = getDimension ?ev)"
    by simp
  note t = inferCellDimensions_degenerate_axes [of ?ev 3 4, THEN mp, OF h]
  from t have "warnings (inferCellDimensions 3 4 ?ev) =
     warnings ?ev @
     filter (\<lambda>j. (Max ((\<lambda>a. project ?ev (samples ?ev a) ! j) ` {drawn ?ev..<drawn ?ev + 3})
                  - Min ((\<lambda>a. project ?ev (samples ?ev a) ! j) ` {drawn ?ev..<drawn ?ev + 3})) / 4
                 < epsilon) [0..<getDimension ?ev]"
    by (rule conjunct1)
  then have a: "warnings (inferCellDimensions 3 4 ?ev) = [1]"
    using e by (simp add: set u)
  from t have "\<forall>j<getDimension ?ev.
        let values = (\<lambda>a. project ?ev (samples ?ev a) ! j) ` {drawn ?ev..<drawn ?ev + 3};
            width = (Max values - Min values) / 4;
            warned = count_list (drop (length (warnings ?ev))
                                  (warnings (inferCellDimensions 3 4 ?ev))) j
        in (width < epsilon \<longrightarrow>
              cellDimensions (inferCellDimensions 3 4 ?ev) ! j = 1 \<and> warned = 1)
         \<and> (\<not> width < epsilon \<longrightarrow>
              cellDimensions (inferCellDimensions 3 4 ?ev) ! j = width \<and> warned = 0)
         \<and> ((\<forall>a b. drawn ?ev \<le> a \<and> a < drawn ?ev + 3 \<and> drawn ?ev \<le> b \<and> b < drawn ?ev + 3 \<longrightarrow>
                project ?ev (samples ?ev a) ! j = project ?ev (samples ?ev b) ! j) \<longrightarrow>
              cellDimensions (inferCellDimensions 3 4 ?ev) ! j = 1 \<and> warned = 1)"
    by (rule conjunct2)
  then have "(\<forall>a b. drawn ?ev \<le> a \<and> a < drawn ?ev + 3 \<and> drawn ?ev \<le> b \<and> b < drawn ?ev + 3 \<longrightarrow>
                project ?ev (samples ?ev a) ! 1 = project ?ev (samples ?ev b) ! 1) \<longrightarrow>
              cellDimensions (inferCellDimensions 3 4 ?ev) ! 1 = 1"
    unfolding Let_def by simp
  then have b: "cellDimensions (inferCellDimensions 3 4 ?ev) ! 1 = 1"
    by simp
  from a b show ?thesis by (intro conjI)
qed

section \<open>Orthonormal rows of the random matrix\<close>

lemma dot_Nil [simp]: "dot [] ys = 0" "dot xs [] = 0"
  by (simp_all add: dot_def)

lemma dot_Cons [simp]: "dot (x # xs) (y # ys) = x * y + dot xs ys"
  by (simp add: dot_def)














subsection \<open>The rows that hold NaNs\<close>









subsection \<open>Three matrices\<close>









end
